theory Spec2Isabelle
  imports Main
begin

section \<open>Constants of App.tsx\<close>

definition GRID_SIZE :: nat where
  "GRID_SIZE = 20"

text \<open>A board position \<^verbatim>\<open>{x: number, y: number}\<close>; directions have the same shape.\<close>

record cell =
  x :: int
  y :: int

definition INITIAL_SNAKE :: "cell list" where
  "INITIAL_SNAKE = [\<lparr>x = 10, y = 10\<rparr>, \<lparr>x = 10, y = 11\<rparr>, \<lparr>x = 10, y = 12\<rparr>]"

definition INITIAL_DIRECTION :: cell where
  "INITIAL_DIRECTION = \<lparr>x = 0, y = - 1\<rparr>"

definition BASE_SPEED :: int where
  "BASE_SPEED = 150"

definition WORDS :: "string list" where
  "WORDS = [''SERPENTE'', ''MELA'', ''GIOCO'', ''COMPUTER'', ''PROGRAMMA'',
            ''TASTIERA'', ''PYTHON'', ''REACT'', ''JAVASCRIPT'', ''CODICE'',
            ''INFORMATICA'', ''SVILUPPO'', ''WEB'', ''INTERNET'', ''SCHERMO'',
            ''ALGORITMO'', ''VARIABILE'', ''FUNZIONE'', ''SISTEMA'', ''RETE'']"

section \<open>The random source\<close>

text \<open>
  \<^verbatim>\<open>Math.random()\<close> yields a number in \<open>[0, 1)\<close>, so
  \<^verbatim>\<open>Math.floor(Math.random() * n)\<close> is an integer in \<open>[0, n)\<close>. The source of
  randomness is a sequence \<open>tape\<close> of naturals, one entry per call of
  \<^verbatim>\<open>Math.random()\<close>; the \<open>k\<close>-th call, scaled to \<open>n\<close>, is the residue of
  that entry. Every function that draws is given the number \<open>k\<close> of calls made so far
  and returns the number made when it is done.
\<close>

definition random_below :: "(nat \<Rightarrow> nat) \<Rightarrow> nat \<Rightarrow> nat \<Rightarrow> nat" where
  "random_below tape k n = tape k mod n"

text \<open>The position drawn by one round of the sampling loop, begun at call \<open>k\<close>.\<close>

definition samplePos :: "(nat \<Rightarrow> nat) \<Rightarrow> nat \<Rightarrow> cell" where
  "samplePos tape k =
     \<lparr>x = int (random_below tape k GRID_SIZE), y = int (random_below tape (k + 1) GRID_SIZE)\<rparr>"

section \<open>generateFoodsForWord\<close>

text \<open>
  A food item \<^verbatim>\<open>{id, x, y, letter}\<close>: a cell extended with an identity and the letter.
\<close>

record food = cell +
  ident :: string
  letter :: char

text \<open>\<^verbatim>\<open>occupied.some(pos => pos.x === newPos.x && pos.y === newPos.y)\<close>\<close>

definition isOccupied :: "cell list \<Rightarrow> cell \<Rightarrow> bool" where
  "isOccupied occupied newPos = list_ex (\<lambda>pos. x pos = x newPos \<and> y pos = y newPos) occupied"

text \<open>
  The inner \<^verbatim>\<open>while (true)\<close> loop: draw a position, leave the loop when it is not
  occupied. Nothing bounds the number of rounds, so the loop is a partial function: the
  value \<open>None\<close> says that it never returns.
\<close>

partial_function (option) findFreePos :: "(nat \<Rightarrow> nat) \<Rightarrow> nat \<Rightarrow> cell list \<Rightarrow> (cell \<times> nat) option" where
  "findFreePos tape k occupied =
     (if \<not> isOccupied occupied (samplePos tape k) then Some (samplePos tape k, k + 2)
      else findFreePos tape (k + 2) occupied)"

declare findFreePos.simps [code]

text \<open>Template literals print numbers in decimal.\<close>

fun decimal :: "nat \<Rightarrow> string" where
  "decimal n = (if n < 10 then [char_of (48 + n)] else decimal (n div 10) @ [char_of (48 + n mod 10)])"

definition numberToString :: "int \<Rightarrow> string" where
  "numberToString i = (if i < 0 then CHR ''-'' # decimal (nat (- i)) else decimal (nat i))"

text \<open>\<^verbatim>\<open>{ id: `${i}-${newPos.x}-${newPos.y}`, ...newPos, letter: word[i] }\<close>\<close>

definition foodId :: "nat \<Rightarrow> cell \<Rightarrow> string" where
  "foodId i newPos = decimal i @ ''-'' @ numberToString (x newPos) @ ''-'' @ numberToString (y newPos)"

definition mkFood :: "nat \<Rightarrow> cell \<Rightarrow> char \<Rightarrow> food" where
  "mkFood i newPos c = \<lparr>x = x newPos, y = y newPos, ident = foodId i newPos, letter = c\<rparr>"

text \<open>The \<^verbatim>\<open>for\<close> loop over the letters, from index \<open>i\<close> on.\<close>

function foodsLoop ::
  "(nat \<Rightarrow> nat) \<Rightarrow> string \<Rightarrow> nat \<Rightarrow> nat \<Rightarrow> food list \<Rightarrow> cell list \<Rightarrow> (food list \<times> nat) option" where
  "foodsLoop tape word i k foods occupied =
     (if i < length word then
        (case findFreePos tape k occupied of
           None \<Rightarrow> None
         | Some (newPos, k') \<Rightarrow>
             foodsLoop tape word (i + 1) k' (foods @ [mkFood i newPos (word ! i)]) (occupied @ [newPos]))
      else Some (foods, k))"
  by pat_completeness auto
termination
  by (relation "measure (\<lambda>(tape, word, i, k, foods, occupied). length word - i)") auto

definition generateFoodsForWord ::
  "(nat \<Rightarrow> nat) \<Rightarrow> nat \<Rightarrow> string \<Rightarrow> cell list \<Rightarrow> (food list \<times> nat) option" where
  "generateFoodsForWord tape k word snake = foodsLoop tape word 0 k [] snake"

declare decimal.simps [simp del]

declare foodsLoop.simps [simp del]

section \<open>The state of the App component\<close>

text \<open>
  The \<^verbatim>\<open>useState\<close> values and the \<^verbatim>\<open>directionQueue\<close> ref of \<^verbatim>\<open>App\<close>, with two
  fields for the world outside: \<open>randomCalls\<close> counts the calls of \<^verbatim>\<open>Math.random()\<close>
  made so far, and \<open>setItemLog\<close> lists the scores handed to
  \<^verbatim>\<open>localStorage.setItem\<close>, oldest first.
\<close>

record game =
  hasStarted :: bool
  snake :: "cell list"
  direction :: cell
  directionQueue :: "cell list"
  word :: string
  wordIndex :: nat
  foods :: "food list"
  score :: int
  highScore :: int
  gameOver :: bool
  isPaused :: bool
  speed :: int
  randomCalls :: nat
  setItemLog :: "int list"

text \<open>
  What a callback can do other than return a new state: read a field of
  \<^verbatim>\<open>undefined\<close> (\<^verbatim>\<open>snake[0].x\<close> on an empty snake), or never return (the sampling loop).
\<close>

datatype fault = TypeError | NeverReturns

section \<open>The high-score effect\<close>

text \<open>
  \<^verbatim>\<open>useEffect(() => { if (score > highScore) { setHighScore(score);
  localStorage.setItem(..., score.toString()) } }, [score, highScore])\<close>:
  run after every render in which the score or the high score changed.
\<close>

definition highScoreEffect :: "game \<Rightarrow> game" where
  "highScoreEffect s =
     (if score s > highScore s
      then s\<lparr>highScore := score s, setItemLog := setItemLog s @ [score s]\<rparr>
      else s)"

section \<open>resetGame and startGame\<close>

definition resetGame :: "(nat \<Rightarrow> nat) \<Rightarrow> game \<Rightarrow> fault + game" where
  "resetGame tape s =
     (let newWord = WORDS ! random_below tape (randomCalls s) (length WORDS) in
      case generateFoodsForWord tape (randomCalls s + 1) newWord INITIAL_SNAKE of
        None \<Rightarrow> Inl NeverReturns
      | Some (newFoods, k') \<Rightarrow>
          Inr (s\<lparr>snake := INITIAL_SNAKE, direction := INITIAL_DIRECTION, directionQueue := [],
                 word := newWord, wordIndex := 0, foods := newFoods, score := 0,
                 speed := BASE_SPEED, gameOver := False, isPaused := False,
                 randomCalls := k'\<rparr>))"

definition startGame :: "game \<Rightarrow> game" where
  "startGame s = s\<lparr>hasStarted := True\<rparr>"

section \<open>The step function (the useInterval callback)\<close>

text \<open>\<^verbatim>\<open>foods.findIndex(p)\<close>, with \<open>None\<close> for \<open>-1\<close>.\<close>

fun findIndex :: "('a \<Rightarrow> bool) \<Rightarrow> 'a list \<Rightarrow> nat option" where
  "findIndex p [] = None"
| "findIndex p (a # as) =
     (if p a then Some 0 else (case findIndex p as of None \<Rightarrow> None | Some i \<Rightarrow> Some (i + 1)))"

text \<open>\<^verbatim>\<open>newFoods.splice(i, 1)\<close>\<close>

definition splice1 :: "nat \<Rightarrow> 'a list \<Rightarrow> 'a list" where
  "splice1 i as = take i as @ drop (i + 1) as"

text \<open>
  \<^verbatim>\<open>eatenFood.letter === word[wordIndex]\<close>: past the end of the word the right-hand
  side is \<^verbatim>\<open>undefined\<close>, which no letter equals.
\<close>

definition letterMatches :: "food \<Rightarrow> string \<Rightarrow> nat \<Rightarrow> bool" where
  "letterMatches eatenFood w i = (i < length w \<and> letter eatenFood = w ! i)"

text \<open>The first lines of the callback: take the oldest queued direction, if there is one.\<close>

definition currentNextDir :: "game \<Rightarrow> cell" where
  "currentNextDir s = (case directionQueue s of [] \<Rightarrow> direction s | d # q \<Rightarrow> d)"

definition shiftQueue :: "game \<Rightarrow> game" where
  "shiftQueue s =
     (case directionQueue s of [] \<Rightarrow> s | d # q \<Rightarrow> s\<lparr>direction := d, directionQueue := q\<rparr>)"

definition newHeadOf :: "cell \<Rightarrow> cell \<Rightarrow> cell" where
  "newHeadOf head dir = \<lparr>x = x head + x dir, y = y head + y dir\<rparr>"

definition hitsWall :: "cell \<Rightarrow> bool" where
  "hitsWall newHead =
     (x newHead < 0 \<or> x newHead \<ge> int GRID_SIZE \<or> y newHead < 0 \<or> y newHead \<ge> int GRID_SIZE)"

definition step :: "(nat \<Rightarrow> nat) \<Rightarrow> game \<Rightarrow> fault + game" where
  "step tape s =
     (if \<not> hasStarted s \<or> gameOver s \<or> isPaused s then Inr s
      else
        let s1 = shiftQueue s in
        case snake s of
          [] \<Rightarrow> Inl TypeError
        | head # rest \<Rightarrow>
            let newHead = newHeadOf head (currentNextDir s) in
            if hitsWall newHead then Inr (s1\<lparr>gameOver := True\<rparr>)
            else if isOccupied (snake s) newHead then Inr (s1\<lparr>gameOver := True\<rparr>)
            else
              let newSnake = newHead # snake s in
              case findIndex (\<lambda>f. x f = x newHead \<and> y f = y newHead) (foods s) of
                None \<Rightarrow> Inr (s1\<lparr>snake := butlast newSnake\<rparr>)
              | Some eatenFoodIndex \<Rightarrow>
                  let eatenFood = foods s ! eatenFoodIndex in
                  if letterMatches eatenFood (word s) (wordIndex s) then
                    let newFoods = splice1 eatenFoodIndex (foods s);
                        nextIndex = wordIndex s + 1
                    in
                    if nextIndex \<ge> length (word s) then
                      let nextWord = WORDS ! random_below tape (randomCalls s) (length WORDS) in
                      case generateFoodsForWord tape (randomCalls s + 1) nextWord newSnake of
                        None \<Rightarrow> Inl NeverReturns
                      | Some (genFoods, k') \<Rightarrow>
                          Inr (s1\<lparr>score := score s + 10 + 50, word := nextWord, wordIndex := 0,
                                  foods := genFoods, speed := max 60 (speed s - 5),
                                  snake := newSnake, randomCalls := k'\<rparr>)
                    else
                      Inr (s1\<lparr>score := score s + 10, wordIndex := nextIndex,
                              foods := newFoods, snake := newSnake\<rparr>)
                  else Inr (s1\<lparr>gameOver := True\<rparr>))"

section \<open>What a callback sees\<close>

text \<open>
  A callback of the component reads the \<^verbatim>\<open>useState\<close> values through the closure of the
  render that created it: the key handler is installed by an effect with dependencies
  \<^verbatim>\<open>[hasStarted, gameOver, direction]\<close>, the click handlers are made anew by every
  render, the interval callback is stored by an effect of every render. What the setters
  have scheduled since that render is not visible to it. The \<^verbatim>\<open>directionQueue\<close> ref is
  not part of any closure: every callback reads and writes it as it is now.

  So a callback takes two states: \<open>c\<close>, the state shown by the last render, whose values
  it reads, and \<open>s\<close>, the state as it is now, which holds the ref and the outside world and
  receives the updates. A setter called with a value overwrites the field of \<open>s\<close>; a
  setter called with a function applies it to the field of \<open>s\<close>. The functions \<open>step\<close>
  above, and \<open>handle\<close>, \<open>react\<close> and \<open>run\<close> below, are the case in which nothing has happened
  since the last render: \<open>c\<close> and \<open>s\<close> are the same state.
\<close>

section \<open>Direction input\<close>

text \<open>
  The reference direction of a push: the last queued one, or the committed one, which
  the handler knows as of the last render.
\<close>

definition lastDir :: "game \<Rightarrow> game \<Rightarrow> cell" where
  "lastDir c s = (if length (directionQueue s) > 0 then last (directionQueue s) else direction c)"

text \<open>The \<^verbatim>\<open>switch (e.key)\<close> of handleKeyDown, for the eight direction keys.\<close>

definition keyDir :: "string \<Rightarrow> cell \<Rightarrow> cell option" where
  "keyDir key ld =
     (if key = ''ArrowUp'' \<or> key = ''w'' \<or> key = ''W'' then
        (if y ld \<noteq> 1 then Some \<lparr>x = 0, y = - 1\<rparr> else None)
      else if key = ''ArrowDown'' \<or> key = ''s'' \<or> key = ''S'' then
        (if y ld \<noteq> - 1 then Some \<lparr>x = 0, y = 1\<rparr> else None)
      else if key = ''ArrowLeft'' \<or> key = ''a'' \<or> key = ''A'' then
        (if x ld \<noteq> 1 then Some \<lparr>x = - 1, y = 0\<rparr> else None)
      else if key = ''ArrowRight'' \<or> key = ''d'' \<or> key = ''D'' then
        (if x ld \<noteq> - 1 then Some \<lparr>x = 1, y = 0\<rparr> else None)
      else None)"

definition pushIfChanged :: "cell \<Rightarrow> game \<Rightarrow> game \<Rightarrow> game" where
  "pushIfChanged newDir c s =
     (if x (lastDir c s) \<noteq> x newDir \<or> y (lastDir c s) \<noteq> y newDir
      then s\<lparr>directionQueue := directionQueue s @ [newDir]\<rparr>
      else s)"

definition handleKeyDown :: "string \<Rightarrow> game \<Rightarrow> game \<Rightarrow> game" where
  "handleKeyDown key c s =
     (if \<not> hasStarted c \<or> gameOver c then s
      else if key = '' '' \<or> key = ''Escape'' then s\<lparr>isPaused := \<not> isPaused s\<rparr>
      else (case keyDir key (lastDir c s) of
              None \<Rightarrow> s
            | Some newDir \<Rightarrow> pushIfChanged newDir c s))"

definition handleDirectionClick :: "cell \<Rightarrow> game \<Rightarrow> game \<Rightarrow> game" where
  "handleDirectionClick newDir c s =
     (if \<not> hasStarted c \<or> gameOver c \<or> isPaused c then s
      else if x (lastDir c s) \<noteq> 0 \<and> x newDir = - x (lastDir c s) then s
      else if y (lastDir c s) \<noteq> 0 \<and> y newDir = - y (lastDir c s) then s
      else pushIfChanged newDir c s)"

text \<open>The four on-screen buttons and the direction each one passes.\<close>

datatype button = UpButton | LeftButton | DownButton | RightButton

fun buttonDir :: "button \<Rightarrow> cell" where
  "buttonDir UpButton = \<lparr>x = 0, y = - 1\<rparr>"
| "buttonDir LeftButton = \<lparr>x = - 1, y = 0\<rparr>"
| "buttonDir DownButton = \<lparr>x = 0, y = 1\<rparr>"
| "buttonDir RightButton = \<lparr>x = 1, y = 0\<rparr>"

section \<open>Pause\<close>

text \<open>
  The pause button of the header (\<^verbatim>\<open>setIsPaused(!isPaused)\<close>, with the value of the last
  render), and the resume button of the pause overlay.
\<close>

definition pauseClick :: "game \<Rightarrow> game \<Rightarrow> game" where
  "pauseClick c s = (if hasStarted c \<and> \<not> gameOver c then s\<lparr>isPaused := \<not> isPaused c\<rparr> else s)"

definition resumeClick :: "game \<Rightarrow> game" where
  "resumeClick s = s\<lparr>isPaused := False\<rparr>"

section \<open>The interval callback, whatever has happened since the last render\<close>

text \<open>
  The callback of \<open>step\<close> again, reading the state \<open>c\<close> of the last render and updating
  the state \<open>s\<close> of now: the queue is shifted in \<open>s\<close>, the snake, the foods, the word and
  the flags are read from \<open>c\<close>, and \<^verbatim>\<open>setScore(s => s + 10)\<close> and
  \<^verbatim>\<open>setSpeed(s => Math.max(60, s - 5))\<close> work on the values of \<open>s\<close>.
\<close>

definition stepOn :: "(nat \<Rightarrow> nat) \<Rightarrow> game \<Rightarrow> game \<Rightarrow> fault + game" where
  "stepOn tape c s =
     (if \<not> hasStarted c \<or> gameOver c \<or> isPaused c then Inr s
      else
        let s1 = shiftQueue s;
            nextDir = (case directionQueue s of [] \<Rightarrow> direction c | d # q \<Rightarrow> d)
        in
        case snake c of
          [] \<Rightarrow> Inl TypeError
        | head # rest \<Rightarrow>
            let newHead = newHeadOf head nextDir in
            if hitsWall newHead then Inr (s1\<lparr>gameOver := True\<rparr>)
            else if isOccupied (snake c) newHead then Inr (s1\<lparr>gameOver := True\<rparr>)
            else
              let newSnake = newHead # snake c in
              case findIndex (\<lambda>f. x f = x newHead \<and> y f = y newHead) (foods c) of
                None \<Rightarrow> Inr (s1\<lparr>snake := butlast newSnake\<rparr>)
              | Some eatenFoodIndex \<Rightarrow>
                  let eatenFood = foods c ! eatenFoodIndex in
                  if letterMatches eatenFood (word c) (wordIndex c) then
                    let newFoods = splice1 eatenFoodIndex (foods c);
                        nextIndex = wordIndex c + 1
                    in
                    if nextIndex \<ge> length (word c) then
                      let nextWord = WORDS ! random_below tape (randomCalls s) (length WORDS) in
                      case generateFoodsForWord tape (randomCalls s + 1) nextWord newSnake of
                        None \<Rightarrow> Inl NeverReturns
                      | Some (genFoods, k') \<Rightarrow>
                          Inr (s1\<lparr>score := score s + 10 + 50, word := nextWord, wordIndex := 0,
                                  foods := genFoods, speed := max 60 (speed s - 5),
                                  snake := newSnake, randomCalls := k'\<rparr>)
                    else
                      Inr (s1\<lparr>score := score s + 10, wordIndex := nextIndex,
                              foods := newFoods, snake := newSnake\<rparr>)
                  else Inr (s1\<lparr>gameOver := True\<rparr>))"

section \<open>Everything that can happen to the component\<close>

text \<open>
  A tick of the interval, a key, or a click. The start button exists only before the
  game has started, the reset button only when the game is over, the resume button only
  on the pause overlay.
\<close>

datatype input =
    Tick
  | KeyDown string
  | DirectionClick button
  | PauseClick
  | ResumeClick
  | StartClick
  | ResetClick

text \<open>
  An input that arrives when nothing has happened since the last render, and the render
  that follows it, which runs the high-score effect.
\<close>

definition handle :: "(nat \<Rightarrow> nat) \<Rightarrow> input \<Rightarrow> game \<Rightarrow> fault + game" where
  "handle tape i s =
     (case i of
        Tick \<Rightarrow> step tape s
      | KeyDown key \<Rightarrow> Inr (handleKeyDown key s s)
      | DirectionClick b \<Rightarrow> Inr (handleDirectionClick (buttonDir b) s s)
      | PauseClick \<Rightarrow> Inr (pauseClick s s)
      | ResumeClick \<Rightarrow> Inr (if isPaused s \<and> \<not> gameOver s \<and> hasStarted s then resumeClick s else s)
      | StartClick \<Rightarrow> Inr (if \<not> hasStarted s then startGame s else s)
      | ResetClick \<Rightarrow> (if gameOver s then resetGame tape s else Inr s))"

definition react :: "(nat \<Rightarrow> nat) \<Rightarrow> input \<Rightarrow> game \<Rightarrow> fault + game" where
  "react tape i s = (case handle tape i s of Inl e \<Rightarrow> Inl e | Inr s' \<Rightarrow> Inr (highScoreEffect s'))"

fun run :: "(nat \<Rightarrow> nat) \<Rightarrow> input list \<Rightarrow> game \<Rightarrow> fault + game" where
  "run tape [] s = Inr s"
| "run tape (i # is) s = (case react tape i s of Inl e \<Rightarrow> Inl e | Inr s' \<Rightarrow> run tape is s')"

text \<open>
  The component between renders: \<open>shown\<close> is the state of the last render, \<open>current\<close> the
  state with everything the callbacks have done since. An input runs its callback; a
  render shows the current state and runs the high-score effect.
\<close>

record app =
  shown :: game
  current :: game

definition act :: "(nat \<Rightarrow> nat) \<Rightarrow> input \<Rightarrow> app \<Rightarrow> fault + app" where
  "act tape i a =
     (case i of
        Tick \<Rightarrow>
          (case stepOn tape (shown a) (current a) of
             Inl e \<Rightarrow> Inl e
           | Inr t \<Rightarrow> Inr (a\<lparr>current := t\<rparr>))
      | KeyDown key \<Rightarrow> Inr (a\<lparr>current := handleKeyDown key (shown a) (current a)\<rparr>)
      | DirectionClick b \<Rightarrow>
          Inr (a\<lparr>current := handleDirectionClick (buttonDir b) (shown a) (current a)\<rparr>)
      | PauseClick \<Rightarrow> Inr (a\<lparr>current := pauseClick (shown a) (current a)\<rparr>)
      | ResumeClick \<Rightarrow>
          Inr (if isPaused (shown a) \<and> \<not> gameOver (shown a) \<and> hasStarted (shown a)
               then a\<lparr>current := resumeClick (current a)\<rparr> else a)
      | StartClick \<Rightarrow>
          Inr (if \<not> hasStarted (shown a) then a\<lparr>current := startGame (current a)\<rparr> else a)
      | ResetClick \<Rightarrow>
          (if gameOver (shown a)
           then (case resetGame tape (current a) of
                   Inl e \<Rightarrow> Inl e
                 | Inr t \<Rightarrow> Inr (a\<lparr>current := t\<rparr>))
           else Inr a))"

definition render :: "app \<Rightarrow> app" where
  "render a = \<lparr>shown = highScoreEffect (current a), current = highScoreEffect (current a)\<rparr>"

datatype event = Input input | Render

fun play :: "(nat \<Rightarrow> nat) \<Rightarrow> event list \<Rightarrow> app \<Rightarrow> fault + app" where
  "play tape [] a = Inr a"
| "play tape (Input i # es) a = (case act tape i a of Inl e \<Rightarrow> Inl e | Inr a' \<Rightarrow> play tape es a')"
| "play tape (Render # es) a = play tape es (render a)"

text \<open>The component right after a render of the state \<open>s\<close>.\<close>

definition settled :: "game \<Rightarrow> app" where
  "settled s = \<lparr>shown = s, current = s\<rparr>"

section \<open>The first render\<close>

text \<open>
  The \<^verbatim>\<open>useState\<close> initialisers: the first word of WORDS with foods generated against
  the initial snake, and the high score read from \<^verbatim>\<open>localStorage\<close> (\<open>saved\<close>, which is
  0 when nothing is stored). The high-score effect runs once after the first render.
\<close>

definition initialGame :: "(nat \<Rightarrow> nat) \<Rightarrow> int \<Rightarrow> fault + game" where
  "initialGame tape saved =
     (case generateFoodsForWord tape 0 (WORDS ! 0) INITIAL_SNAKE of
        None \<Rightarrow> Inl NeverReturns
      | Some (newFoods, k') \<Rightarrow>
          Inr (highScoreEffect
                 \<lparr>hasStarted = False, snake = INITIAL_SNAKE, direction = INITIAL_DIRECTION,
                  directionQueue = [], word = WORDS ! 0, wordIndex = 0, foods = newFoods,
                  score = 0, highScore = saved, gameOver = False, isPaused = False,
                  speed = BASE_SPEED, randomCalls = k', setItemLog = []\<rparr>))"

section \<open>Notions used to state the properties\<close>

text \<open>A cell lies on the board.\<close>

definition inGrid :: "cell \<Rightarrow> bool" where
  "inGrid c = (0 \<le> x c \<and> x c < int GRID_SIZE \<and> 0 \<le> y c \<and> y c < int GRID_SIZE)"

text \<open>The cells of the board, row by row.\<close>

definition gridCells :: "cell list" where
  "gridCells = concat (map (\<lambda>a. map (\<lambda>b. \<lparr>x = int a, y = int b\<rparr>) [0..<GRID_SIZE]) [0..<GRID_SIZE])"

text \<open>The position of a food item.\<close>

definition cellOf :: "food \<Rightarrow> cell" where
  "cellOf f = \<lparr>x = x f, y = y f\<rparr>"

text \<open>
  A random source is fair when, from every call on, every cell of the board is drawn
  again by some later round of the sampling loop. A source that is not fair can keep the
  loop on occupied cells for ever, whatever the board looks like.
\<close>

definition fair :: "(nat \<Rightarrow> nat) \<Rightarrow> bool" where
  "fair tape = (\<forall>k. \<forall>c \<in> set gridCells. \<exists>j. samplePos tape (k + 2 * j) = c)"

text \<open>A fair source, used for the concrete runs below.\<close>

definition tape0 :: "nat \<Rightarrow> nat" where
  "tape0 n = (if even n then n div 2 else n div 2 div 20)"

text \<open>The interval callback does something only in this phase.\<close>

definition running :: "game \<Rightarrow> bool" where
  "running s = (hasStarted s \<and> \<not> gameOver s \<and> \<not> isPaused s)"

text \<open>The cell the head moves to at the next tick.\<close>

definition nextHead :: "game \<Rightarrow> cell" where
  "nextHead s = newHeadOf (hd (snake s)) (currentNextDir s)"

text \<open>The food lookup of the callback at the next head.\<close>

definition eatenFoodIndex :: "game \<Rightarrow> nat option" where
  "eatenFoodIndex s = findIndex (\<lambda>f. x f = x (nextHead s) \<and> y f = y (nextHead s)) (foods s)"

text \<open>The exact reversal of a direction.\<close>

definition negated :: "cell \<Rightarrow> cell" where
  "negated d = \<lparr>x = - x d, y = - y d\<rparr>"

text \<open>The four directions the keys and the buttons produce.\<close>

definition isUnit :: "cell \<Rightarrow> bool" where
  "isUnit d = (d = \<lparr>x = 0, y = - 1\<rparr> \<or> d = \<lparr>x = 0, y = 1\<rparr> \<or> d = \<lparr>x = - 1, y = 0\<rparr> \<or> d = \<lparr>x = 1, y = 0\<rparr>)"

text \<open>
  No direction in the queue repeats or reverses the one before it, the first one being
  compared with the committed direction.
\<close>

fun chainOk :: "cell \<Rightarrow> cell list \<Rightarrow> bool" where
  "chainOk d [] = True"
| "chainOk d (e # q) = (e \<noteq> d \<and> e \<noteq> negated d \<and> chainOk e q)"

definition dirInv :: "game \<Rightarrow> bool" where
  "dirInv s = (isUnit (direction s) \<and> list_all isUnit (directionQueue s) \<and>
               chainOk (direction s) (directionQueue s))"

text \<open>
  A game on its way: the snake of the initial state heading up, the word AB, its letter A
  right above the head and its letter B elsewhere.
\<close>

definition demoGame :: game where
  "demoGame =
     \<lparr>hasStarted = True, snake = INITIAL_SNAKE, direction = INITIAL_DIRECTION,
      directionQueue = [], word = ''AB'', wordIndex = 0,
      foods = [\<lparr>x = 10, y = 9, ident = ''0-10-9'', letter = CHR ''A''\<rparr>,
               \<lparr>x = 5, y = 5, ident = ''1-5-5'', letter = CHR ''B''\<rparr>],
      score = 0, highScore = 0, gameOver = False, isPaused = False, speed = BASE_SPEED,
      randomCalls = 0, setItemLog = []\<rparr>"




text \<open>
  What a direction input may do to the queue: leave it, or append one direction that
  is neither the reference direction nor its reversal. The committed direction stays.
\<close>

definition pushOk :: "game \<Rightarrow> game \<Rightarrow> bool" where
  "pushOk s s' =
     (direction s' = direction s \<and>
      (directionQueue s' = directionQueue s \<or>
       (directionQueue s' \<noteq> [] \<and> butlast (directionQueue s') = directionQueue s \<and>
        last (directionQueue s') \<noteq> lastDir s s \<and>
        last (directionQueue s') \<noteq> negated (lastDir s s))))"

definition isPush :: "input \<Rightarrow> bool" where
  "isPush i = (case i of KeyDown key \<Rightarrow> True | DirectionClick b \<Rightarrow> True | _ \<Rightarrow> False)"


text \<open>
  What holds of the score in every state the component reaches: it is not negative, the
  high score has caught up with it, and a game that has not started has none.
\<close>

definition scoreInv :: "game \<Rightarrow> bool" where
  "scoreInv s = (0 \<le> score s \<and> score s \<le> highScore s \<and> (hasStarted s \<or> score s = 0))"

text \<open>The demonstration game after the tick that eats the letter A.\<close>

definition demoGameFed :: game where
  "demoGameFed =
     demoGame\<lparr>score := 10, wordIndex := 1,
               foods := [\<lparr>x = 5, y = 5, ident = ''1-5-5'', letter = CHR ''B''\<rparr>],
               snake := \<lparr>x = 10, y = 9\<rparr> # INITIAL_SNAKE,
               highScore := 10, setItemLog := [10]\<rparr>"

text \<open>
  What holds of the board in every state the component reaches: there is a snake, and
  the foods lie on the board, on cells of their own, off the snake.
\<close>

definition boardInv :: "game \<Rightarrow> bool" where
  "boardInv s =
     (snake s \<noteq> [] \<and> distinct (map cellOf (foods s)) \<and>
      (\<forall>f \<in> set (foods s). inGrid (cellOf f) \<and> cellOf f \<notin> set (snake s)))"

text \<open>The demonstration game, over after the letter A was eaten.\<close>

definition overGame :: game where
  "overGame = demoGameFed\<lparr>gameOver := True\<rparr>"



text \<open>The demonstration game after a turn to the left and one tick.\<close>

definition turnedGame :: game where
  "turnedGame =
     demoGame\<lparr>direction := \<lparr>x = - 1, y = 0\<rparr>,
               snake := [\<lparr>x = 9, y = 10\<rparr>, \<lparr>x = 10, y = 10\<rparr>, \<lparr>x = 10, y = 11\<rparr>]\<rparr>"

section \<open>The sampling loop and the letter loop\<close>


lemma cell_eqI: "x (p::cell) = x q \<Longrightarrow> y p = y q \<Longrightarrow> p = q"
  by simp

lemma isOccupied_iff: "isOccupied occ (p::cell) \<longleftrightarrow> p \<in> set occ"
  unfolding isOccupied_def list_ex_iff by (metis cell_eqI)

lemma samplePos_inGrid: "inGrid (samplePos tape k)"
  by (simp add: inGrid_def samplePos_def random_below_def GRID_SIZE_def)

lemma findFreePos_free:
  "\<not> isOccupied occ (samplePos tape k) \<Longrightarrow> findFreePos tape k occ = Some (samplePos tape k, k + 2)"
  by (subst findFreePos.simps) simp

lemma findFreePos_retry:
  "isOccupied occ (samplePos tape k) \<Longrightarrow> findFreePos tape k occ = findFreePos tape (k + 2) occ"
  by (subst findFreePos.simps) simp

lemma findFreePos_sound:
  assumes "findFreePos tape k occ = Some r"
  shows "\<exists>j. r = (samplePos tape (k + 2 * j), k + 2 * j + 2) \<and> \<not> isOccupied occ (samplePos tape (k + 2 * j))"
proof (rule findFreePos.raw_induct
    [where P = "\<lambda>tape k occ r. \<exists>j. r = (samplePos tape (k + 2 * j), k + 2 * j + 2) \<and>
                  \<not> isOccupied occ (samplePos tape (k + 2 * j))", OF _ assms])
  fix f :: "(nat \<Rightarrow> nat) \<Rightarrow> nat \<Rightarrow> cell list \<Rightarrow> (cell \<times> nat) option"
  fix tape k occ r
  assume IH: "\<And>tape k occ r. f tape k occ = Some r \<Longrightarrow>
     \<exists>j. r = (samplePos tape (k + 2 * j), k + 2 * j + 2) \<and> \<not> isOccupied occ (samplePos tape (k + 2 * j))"
  assume eq: "(if \<not> isOccupied occ (samplePos tape k) then Some (samplePos tape k, k + 2)
      else f tape (k + 2) occ) = Some r"
  show "\<exists>j. r = (samplePos tape (k + 2 * j), k + 2 * j + 2) \<and> \<not> isOccupied occ (samplePos tape (k + 2 * j))"
  proof (cases "isOccupied occ (samplePos tape k)")
    case False
    with eq have "r = (samplePos tape k, k + 2)" by simp
    with False show ?thesis by (intro exI[of _ 0]) simp
  next
    case True
    with eq have "f tape (k + 2) occ = Some r" by simp
    from IH[OF this] obtain j where
      "r = (samplePos tape (k + 2 + 2 * j), k + 2 + 2 * j + 2)"
      "\<not> isOccupied occ (samplePos tape (k + 2 + 2 * j))" by blast
    then show ?thesis by (intro exI[of _ "Suc j"]) simp
  qed
qed

lemma findFreePos_complete:
  "\<not> isOccupied occ (samplePos tape (k + 2 * j)) \<Longrightarrow> \<exists>r. findFreePos tape k occ = Some r"
proof (induction j arbitrary: k)
  case 0
  then show ?case by (simp add: findFreePos_free)
next
  case (Suc j)
  show ?case
  proof (cases "isOccupied occ (samplePos tape k)")
    case False
    then show ?thesis by (simp add: findFreePos_free)
  next
    case True
    from Suc.prems have "\<not> isOccupied occ (samplePos tape (k + 2 + 2 * j))" by simp
    from Suc.IH[OF this] show ?thesis by (simp add: findFreePos_retry[OF True])
  qed
qed

lemma set_gridCells: "set gridCells = {c. inGrid c}"
proof -
  have "c \<in> set gridCells \<longleftrightarrow> inGrid c" for c
  proof
    assume "c \<in> set gridCells"
    then obtain a b where "a < GRID_SIZE" "b < GRID_SIZE" "c = \<lparr>x = int a, y = int b\<rparr>"
      unfolding gridCells_def by auto
    then show "inGrid c" by (simp add: inGrid_def)
  next
    assume g: "inGrid c"
    have "c = \<lparr>x = int (nat (x c)), y = int (nat (y c))\<rparr>" using g by (simp add: inGrid_def)
    moreover have "nat (x c) < GRID_SIZE" "nat (y c) < GRID_SIZE" using g by (simp_all add: inGrid_def nat_less_iff)
    ultimately have "\<exists>a<GRID_SIZE. \<exists>b<GRID_SIZE. c = \<lparr>x = int a, y = int b\<rparr>" by blast
    then show "c \<in> set gridCells" unfolding gridCells_def by (force simp: image_iff)
  qed
  then show ?thesis by auto
qed

lemma findFreePos_full:
  "\<forall>c. inGrid c \<longrightarrow> isOccupied occ c \<Longrightarrow> findFreePos tape k occ = None"
proof (rule ccontr)
  assume full: "\<forall>c. inGrid c \<longrightarrow> isOccupied occ c" and "findFreePos tape k occ \<noteq> None"
  then obtain r where "findFreePos tape k occ = Some r" by auto
  from findFreePos_sound[OF this] obtain j where "\<not> isOccupied occ (samplePos tape (k + 2 * j))" by blast
  with full samplePos_inGrid show False by blast
qed



lemma cellOf_mkFood [simp]: "cellOf (mkFood i p c) = p"
  by (simp add: cellOf_def mkFood_def)

lemma letter_mkFood [simp]: "letter (mkFood i p c) = c"
  by (simp add: mkFood_def)

lemma ident_mkFood [simp]: "ident (mkFood i p c) = foodId i p"
  by (simp add: mkFood_def)


lemma foodsLoop_done:
  "\<not> i < length w \<Longrightarrow> foodsLoop tape w i k fs occ = Some (fs, k)"
  by (subst foodsLoop.simps) simp

lemma foodsLoop_step:
  "i < length w \<Longrightarrow> findFreePos tape k occ = Some (p, k1) \<Longrightarrow>
   foodsLoop tape w i k fs occ = foodsLoop tape w (i + 1) k1 (fs @ [mkFood i p (w ! i)]) (occ @ [p])"
  by (subst foodsLoop.simps) simp

lemma foodsLoop_stuck:
  "i < length w \<Longrightarrow> findFreePos tape k occ = None \<Longrightarrow> foodsLoop tape w i k fs occ = None"
  by (subst foodsLoop.simps) simp

lemma tape0_even: "tape0 (2 * t) = t"
  by (simp add: tape0_def)

lemma tape0_odd: "tape0 (2 * t + 1) = t div 20"
  by (simp add: tape0_def)

lemma samplePos_tape0_even:
  "samplePos tape0 (2 * t) = \<lparr>x = int (t mod 20), y = int (t div 20 mod 20)\<rparr>"
  using tape0_even[of t] tape0_odd[of t]
  by (simp add: samplePos_def random_below_def GRID_SIZE_def)

lemma samplePos_tape0_odd:
  "samplePos tape0 (2 * t + 1) = \<lparr>x = int (t div 20 mod 20), y = int ((t + 1) mod 20)\<rparr>"
proof -
  have "2 * t + 1 + 1 = 2 * (t + 1)" by simp
  then have "tape0 (2 * t + 1 + 1) = t + 1" using tape0_even[of "t + 1"] by simp
  then show ?thesis using tape0_odd[of t]
    by (simp add: samplePos_def random_below_def GRID_SIZE_def)
qed

lemma foodsLoop_sound:
  "foodsLoop tape w i k fs occ = Some (res, k') \<Longrightarrow>
   \<exists>new. res = fs @ new \<and> length new = length w - i \<and> map letter new = drop i w \<and>
         distinct (map cellOf new) \<and> set (map cellOf new) \<inter> set occ = {} \<and>
         (\<forall>c \<in> set (map cellOf new). inGrid c) \<and>
         (\<forall>n < length new. ident (new ! n) = foodId (i + n) (cellOf (new ! n)))"
proof (induction tape w i k fs occ arbitrary: res k' rule: foodsLoop.induct)
  case (1 tape w i k fs occ)
  show ?case
  proof (cases "i < length w")
    case False
    with "1.prems" show ?thesis by (simp add: foodsLoop_done)
  next
    case True
    have "findFreePos tape k occ \<noteq> None"
    proof
      assume "findFreePos tape k occ = None"
      from foodsLoop_stuck[OF True this] "1.prems" show False by simp
    qed
    then obtain p k1 where ff: "findFreePos tape k occ = Some (p, k1)" by auto
    have rec: "foodsLoop tape w (i + 1) k1 (fs @ [mkFood i p (w ! i)]) (occ @ [p]) = Some (res, k')"
      using "1.prems" foodsLoop_step[OF True ff] by simp
    from findFreePos_sound[OF ff] have pfree: "p \<notin> set occ" and pgrid: "inGrid p"
      by (auto simp: isOccupied_iff samplePos_inGrid)
    from "1.IH"[OF True ff refl rec] obtain new where new:
      "res = (fs @ [mkFood i p (w ! i)]) @ new" "length new = length w - (i + 1)"
      "map letter new = drop (i + 1) w" "distinct (map cellOf new)"
      "set (map cellOf new) \<inter> set (occ @ [p]) = {}"
      "\<forall>c \<in> set (map cellOf new). inGrid c"
      "\<forall>n < length new. ident (new ! n) = foodId (i + 1 + n) (cellOf (new ! n))"
      by blast
    let ?new = "mkFood i p (w ! i) # new"
    have "res = fs @ ?new" using new(1) by simp
    moreover have "length ?new = length w - i" using new(2) True by simp
    moreover have "map letter ?new = drop i w"
      using new(3) True by (simp add: Cons_nth_drop_Suc)
    moreover have "distinct (map cellOf ?new)" using new(4,5) by auto
    moreover have "set (map cellOf ?new) \<inter> set occ = {}" using new(5) pfree by auto
    moreover have "\<forall>c \<in> set (map cellOf ?new). inGrid c" using new(6) pgrid by simp
    moreover have "\<forall>n < length ?new. ident (?new ! n) = foodId (i + n) (cellOf (?new ! n))"
    proof (intro allI impI)
      fix n assume "n < length ?new"
      then show "ident (?new ! n) = foodId (i + n) (cellOf (?new ! n))"
        using new(7) by (cases n) auto
    qed
    ultimately show ?thesis by blast
  qed
qed

lemma foodsLoop_returns:
  "fair tape \<Longrightarrow> length w - i \<le> card (set gridCells - set occ) \<Longrightarrow>
   \<exists>r. foodsLoop tape w i k fs occ = Some r"
proof (induction tape w i k fs occ rule: foodsLoop.induct)
  case (1 tape w i k fs occ)
  show ?case
  proof (cases "i < length w")
    case False
    then show ?thesis by (simp add: foodsLoop_done)
  next
    case True
    with "1.prems"(2) have "0 < card (set gridCells - set occ)" by linarith
    then have "set gridCells - set occ \<noteq> {}" by (simp add: card_gt_0_iff)
    then obtain c where c: "c \<in> set gridCells" "c \<notin> set occ" by blast
    from "1.prems"(1) c(1) obtain j where "samplePos tape (k + 2 * j) = c"
      unfolding fair_def by blast
    with c(2) have "\<not> isOccupied occ (samplePos tape (k + 2 * j))" by (simp add: isOccupied_iff)
    from findFreePos_complete[OF this] obtain r where r: "findFreePos tape k occ = Some r" by blast
    obtain p k1 where pk: "r = (p, k1)" by (cases r)
    from findFreePos_sound[OF r] pk have pfree: "p \<notin> set occ" and pgrid: "p \<in> set gridCells"
      by (auto simp: isOccupied_iff samplePos_inGrid set_gridCells)
    have "set gridCells - set (occ @ [p]) = (set gridCells - set occ) - {p}" by auto
    moreover have "p \<in> set gridCells - set occ" using pfree pgrid by simp
    ultimately have "card (set gridCells - set (occ @ [p])) = card (set gridCells - set occ) - 1"
      by (simp add: card_Diff_singleton)
    with "1.prems"(2) True have "length w - (i + 1) \<le> card (set gridCells - set (occ @ [p]))" by simp
    from "1.IH"[OF True r pk[symmetric] "1.prems"(1) this]
    obtain r' where "foodsLoop tape w (i + 1) k1 (fs @ [mkFood i p (w ! i)]) (occ @ [p]) = Some r'"
      by blast
    then show ?thesis using foodsLoop_step[OF True r[unfolded pk]] by simp
  qed
qed

lemma fair_tape0: "fair tape0"
  unfolding fair_def
proof (intro allI ballI)
  fix k c assume "c \<in> set gridCells"
  then have g: "inGrid c" by (simp add: set_gridCells)
  define a b where "a = nat (x c)" and "b = nat (y c)"
  have ab: "a < 20" "b < 20" "c = \<lparr>x = int a, y = int b\<rparr>"
    using g by (simp_all add: a_def b_def inGrid_def GRID_SIZE_def nat_less_iff)
  show "\<exists>j. samplePos tape0 (k + 2 * j) = c"
  proof (cases "even k")
    case True
    then obtain h where h: "k = 2 * h" by (auto elim: evenE)
    define q where "q = b + 20 * (h + 1)"
    define t where "t = a + 20 * q"
    have "t mod 20 = a" using ab(1) by (simp add: t_def)
    moreover have "t div 20 = q" using ab(1) by (simp add: t_def)
    moreover have "q mod 20 = b" using ab(2) unfolding q_def by (metis mod_mult_self2 mod_less)
    ultimately have "samplePos tape0 (2 * t) = c"
      using ab(3) by (simp add: samplePos_tape0_even)
    moreover have "h \<le> t" by (simp add: t_def q_def)
    then have "k + 2 * (t - h) = 2 * t" by (simp add: h)
    ultimately show ?thesis by metis
  next
    case False
    then obtain h where h: "k = 2 * h + 1" by (auto elim: oddE)
    define r where "r = (b + 19) mod 20"
    define q where "q = a + 20 * (h + 1)"
    define t where "t = r + 20 * q"
    have r: "r < 20" by (simp add: r_def)
    have "(r + 1) mod 20 = b" using ab(2) by (simp add: r_def mod_simps)
    moreover have "t + 1 = (r + 1) + 20 * q" by (simp add: t_def)
    ultimately have "(t + 1) mod 20 = b" by (metis mod_mult_self2)
    moreover have "t div 20 = q" using r by (simp add: t_def)
    moreover have "q mod 20 = a" using ab(1) unfolding q_def by (metis mod_mult_self2 mod_less)
    ultimately have "\<lparr>x = int (t div 20 mod 20), y = int ((t + 1) mod 20)\<rparr> = c"
      using ab(3) by simp
    then have "samplePos tape0 (2 * t + 1) = c"
      by (simp only: samplePos_tape0_odd)
    moreover have "h \<le> t" by (simp add: t_def q_def)
    then have "k + 2 * (t - h) = 2 * t + 1" by (simp add: h)
    ultimately show ?thesis by metis
  qed
qed


lemma card_gridCells: "card (set gridCells) = 400"
proof -
  let ?f = "\<lambda>(a, b). \<lparr>x = int a, y = int b\<rparr>"
  have "set gridCells = ?f ` ({0..<GRID_SIZE} \<times> {0..<GRID_SIZE})"
    unfolding gridCells_def by auto
  moreover have "inj ?f"
    by (auto simp: inj_on_def)
  ultimately have "card (set gridCells) = card ({0..<GRID_SIZE} \<times> {0..<GRID_SIZE})"
    by (metis card_image subset_UNIV inj_on_subset)
  then show ?thesis by (simp add: GRID_SIZE_def)
qed

lemma card_free_cells: "400 - length occ \<le> card (set gridCells - set occ)"
proof -
  have "card (set gridCells) - card (set occ) \<le> card (set gridCells - set occ)"
    by (rule diff_card_le_card_Diff) simp
  moreover have "card (set occ) \<le> length occ" by (rule card_length)
  ultimately show ?thesis using card_gridCells by linarith
qed

lemma foodsLoop_starved:
  "card (set gridCells - set occ) < length w - i \<Longrightarrow> foodsLoop tape w i k fs occ = None"
proof (induction tape w i k fs occ rule: foodsLoop.induct)
  case (1 tape w i k fs occ)
  from "1.prems" have True: "i < length w" by simp
  show ?case
  proof (cases "findFreePos tape k occ")
    case None
    then show ?thesis by (rule foodsLoop_stuck[OF True])
  next
    case (Some r)
    obtain p k1 where pk: "r = (p, k1)" by (cases r)
    from findFreePos_sound[OF Some] pk have pfree: "p \<notin> set occ" and pgrid: "p \<in> set gridCells"
      by (auto simp: isOccupied_iff samplePos_inGrid set_gridCells)
    have "set gridCells - set (occ @ [p]) = (set gridCells - set occ) - {p}" by auto
    moreover have "p \<in> set gridCells - set occ" using pfree pgrid by simp
    ultimately have "card (set gridCells - set (occ @ [p])) = card (set gridCells - set occ) - 1"
      by (simp add: card_Diff_singleton)
    moreover have "0 < card (set gridCells - set occ)"
      using pfree pgrid by (auto simp: card_gt_0_iff)
    ultimately have "card (set gridCells - set (occ @ [p])) < length w - (i + 1)"
      using "1.prems" by linarith
    from "1.IH"[OF True Some pk[symmetric] this] show ?thesis
      using foodsLoop_step[OF True Some[unfolded pk]] by simp
  qed
qed

section \<open>Placement of the letters\<close>

text \<open>
  A call in which the first cell drawn is on the snake and drawn again, for a word of
  eleven letters, evaluated.
\<close>

lemma generateFoodsForWord_INFORMATICA:
  "generateFoodsForWord tape0 460 ''INFORMATICA'' INITIAL_SNAKE =
     Some ([\<lparr>x = 11, y = 11, ident = ''0-11-11'', letter = CHR ''I''\<rparr>,
            \<lparr>x = 12, y = 11, ident = ''1-12-11'', letter = CHR ''N''\<rparr>,
            \<lparr>x = 13, y = 11, ident = ''2-13-11'', letter = CHR ''F''\<rparr>,
            \<lparr>x = 14, y = 11, ident = ''3-14-11'', letter = CHR ''O''\<rparr>,
            \<lparr>x = 15, y = 11, ident = ''4-15-11'', letter = CHR ''R''\<rparr>,
            \<lparr>x = 16, y = 11, ident = ''5-16-11'', letter = CHR ''M''\<rparr>,
            \<lparr>x = 17, y = 11, ident = ''6-17-11'', letter = CHR ''A''\<rparr>,
            \<lparr>x = 18, y = 11, ident = ''7-18-11'', letter = CHR ''T''\<rparr>,
            \<lparr>x = 19, y = 11, ident = ''8-19-11'', letter = CHR ''I''\<rparr>,
            \<lparr>x = 0, y = 12, ident = ''9-0-12'', letter = CHR ''C''\<rparr>,
            \<lparr>x = 1, y = 12, ident = ''10-1-12'', letter = CHR ''A''\<rparr>], 484)"
  by (simp add: generateFoodsForWord_def foodsLoop.simps findFreePos.simps isOccupied_def
      samplePos_def random_below_def tape0_def GRID_SIZE_def INITIAL_SNAKE_def mkFood_def
      foodId_def numberToString_def decimal.simps char_of_def bit_0)

text \<open>
  Claim C2. For every word and every list of occupied cells that leaves at least as many
  cells of the 20 x 20 board free as the word has letters, generateFoodsForWord returns,
  provided the random source is fair, and what it returns is one food item per letter of
  the word, in order: as many items as letters, the \<open>n\<close>-th item carrying the \<open>n\<close>-th
  letter, at positions on the board that are pairwise distinct and none of them occupied,
  the identity of the \<open>n\<close>-th item being \<open>n\<close>, its \<open>x\<close> and its \<open>y\<close> in decimal, joined by
  hyphens.
\<close>

theorem generateFoodsForWord_places_word:
  assumes "fair tape" and "length w \<le> card (set gridCells - set occ)"
  shows "\<exists>fs k'. generateFoodsForWord tape k w occ = Some (fs, k') \<and>
           length fs = length w \<and>
           map letter fs = w \<and>
           distinct (map cellOf fs) \<and>
           set (map cellOf fs) \<inter> set occ = {} \<and>
           (\<forall>c \<in> set (map cellOf fs). inGrid c) \<and>
           (\<forall>n < length fs.
              ident (fs ! n) =
                decimal n @ ''-'' @ numberToString (x (fs ! n)) @ ''-'' @ numberToString (y (fs ! n)))"
proof -
  from assms have "length w - 0 \<le> card (set gridCells - set occ)" by simp
  from foodsLoop_returns[OF assms(1) this, of k "[]"]
  obtain fs k' where r: "foodsLoop tape w 0 k [] occ = Some (fs, k')" by force
  from foodsLoop_sound[OF r] have p:
    "length fs = length w" "map letter fs = w" "distinct (map cellOf fs)"
    "set (map cellOf fs) \<inter> set occ = {}" "\<forall>c \<in> set (map cellOf fs). inGrid c"
    and i: "\<forall>n < length fs. ident (fs ! n) = foodId n (cellOf (fs ! n))"
    by auto
  from i have "\<forall>n < length fs.
      ident (fs ! n) =
        decimal n @ ''-'' @ numberToString (x (fs ! n)) @ ''-'' @ numberToString (y (fs ! n))"
    by (simp add: foodId_def cellOf_def)
  with r p show ?thesis unfolding generateFoodsForWord_def by blast
qed

theorem generateFoodsForWord_places_word_witness:
  "fair tape0 \<and> length ''INFORMATICA'' \<le> card (set gridCells - set INITIAL_SNAKE) \<and>
   generateFoodsForWord tape0 460 ''INFORMATICA'' INITIAL_SNAKE =
     Some ([\<lparr>x = 11, y = 11, ident = ''0-11-11'', letter = CHR ''I''\<rparr>,
            \<lparr>x = 12, y = 11, ident = ''1-12-11'', letter = CHR ''N''\<rparr>,
            \<lparr>x = 13, y = 11, ident = ''2-13-11'', letter = CHR ''F''\<rparr>,
            \<lparr>x = 14, y = 11, ident = ''3-14-11'', letter = CHR ''O''\<rparr>,
            \<lparr>x = 15, y = 11, ident = ''4-15-11'', letter = CHR ''R''\<rparr>,
            \<lparr>x = 16, y = 11, ident = ''5-16-11'', letter = CHR ''M''\<rparr>,
            \<lparr>x = 17, y = 11, ident = ''6-17-11'', letter = CHR ''A''\<rparr>,
            \<lparr>x = 18, y = 11, ident = ''7-18-11'', letter = CHR ''T''\<rparr>,
            \<lparr>x = 19, y = 11, ident = ''8-19-11'', letter = CHR ''I''\<rparr>,
            \<lparr>x = 0, y = 12, ident = ''9-0-12'', letter = CHR ''C''\<rparr>,
            \<lparr>x = 1, y = 12, ident = ''10-1-12'', letter = CHR ''A''\<rparr>], 484) \<and>
   decimal 10 @ ''-'' @ numberToString 1 @ ''-'' @ numberToString 12 = ''10-1-12''"
proof -
  have free: "length ''INFORMATICA'' \<le> card (set gridCells - set INITIAL_SNAKE)"
    using card_free_cells[of INITIAL_SNAKE] by (simp add: INITIAL_SNAKE_def)
  from generateFoodsForWord_places_word[OF fair_tape0 free, of 460]
  obtain fs k' where
    g: "generateFoodsForWord tape0 460 ''INFORMATICA'' INITIAL_SNAKE = Some (fs, k')"
    and i: "\<forall>n < length fs.
      ident (fs ! n) =
        decimal n @ ''-'' @ numberToString (x (fs ! n)) @ ''-'' @ numberToString (y (fs ! n))"
    by blast
  let ?L = "[\<lparr>x = 11, y = 11, ident = ''0-11-11'', letter = CHR ''I''\<rparr>,
            \<lparr>x = 12, y = 11, ident = ''1-12-11'', letter = CHR ''N''\<rparr>,
            \<lparr>x = 13, y = 11, ident = ''2-13-11'', letter = CHR ''F''\<rparr>,
            \<lparr>x = 14, y = 11, ident = ''3-14-11'', letter = CHR ''O''\<rparr>,
            \<lparr>x = 15, y = 11, ident = ''4-15-11'', letter = CHR ''R''\<rparr>,
            \<lparr>x = 16, y = 11, ident = ''5-16-11'', letter = CHR ''M''\<rparr>,
            \<lparr>x = 17, y = 11, ident = ''6-17-11'', letter = CHR ''A''\<rparr>,
            \<lparr>x = 18, y = 11, ident = ''7-18-11'', letter = CHR ''T''\<rparr>,
            \<lparr>x = 19, y = 11, ident = ''8-19-11'', letter = CHR ''I''\<rparr>,
            \<lparr>x = 0, y = 12, ident = ''9-0-12'', letter = CHR ''C''\<rparr>,
            \<lparr>x = 1, y = 12, ident = ''10-1-12'', letter = CHR ''A''\<rparr>]"
  from g generateFoodsForWord_INFORMATICA have fs: "fs = ?L" by simp
  have len: "10 < length fs" by (simp only: fs) simp
  have n10: "fs ! 10 = \<lparr>x = 1, y = 12, ident = ''10-1-12'', letter = CHR ''A''\<rparr>"
    by (simp only: fs) simp
  from i len have "ident (fs ! 10) =
      decimal 10 @ ''-'' @ numberToString (x (fs ! 10)) @ ''-'' @ numberToString (y (fs ! 10))"
    by blast
  then have d10: "decimal 10 @ ''-'' @ numberToString 1 @ ''-'' @ numberToString 12 = ''10-1-12''"
    by (simp only: n10) simp
  show ?thesis by (intro conjI fair_tape0 free generateFoodsForWord_INFORMATICA d10)
qed

text \<open>Another call, evaluated: the letters of WEB on the first three cells drawn.\<close>

lemma generateFoodsForWord_WEB:
  "generateFoodsForWord tape0 0 ''WEB'' INITIAL_SNAKE =
     Some ([\<lparr>x = 0, y = 0, ident = ''0-0-0'', letter = CHR ''W''\<rparr>,
            \<lparr>x = 1, y = 0, ident = ''1-1-0'', letter = CHR ''E''\<rparr>,
            \<lparr>x = 2, y = 0, ident = ''2-2-0'', letter = CHR ''B''\<rparr>], 6)"
  by code_simp

text \<open>
  Claim C9, as the code has it. The sampling loop has no bound on its rounds and no way
  to fail: when fewer cells of the board are free than the word has letters (so, when the
  occupied cells cover the board and the word is not empty), generateFoodsForWord never
  returns, whatever the random source.
\<close>

theorem generateFoodsForWord_never_returns:
  assumes "card (set gridCells - set occ) < length w"
  shows "generateFoodsForWord tape k w occ = None"
  unfolding generateFoodsForWord_def
  by (rule foodsLoop_starved) (use assms in simp)

theorem generateFoodsForWord_never_returns_witness:
  "card (set gridCells - set gridCells) < length ''A'' \<and>
   generateFoodsForWord tape0 0 ''A'' gridCells = None"
proof -
  have h: "card (set gridCells - set gridCells) < length ''A''" by simp
  from generateFoodsForWord_never_returns[OF h] h show ?thesis by blast
qed

text \<open>
  On a board whose every cell is occupied, the call for the one-letter word A does not
  come back with a failure: it does not come back.
\<close>

theorem generateFoodsForWord_full_board_counterexample:
  "generateFoodsForWord tape0 0 ''A'' gridCells = None"
proof -
  have "findFreePos tape0 0 gridCells = None"
    by (rule findFreePos_full) (simp add: isOccupied_iff set_gridCells)
  then show ?thesis
    unfolding generateFoodsForWord_def by (intro foodsLoop_stuck) simp_all
qed

section \<open>One tick\<close>


lemma shiftQueue_fields [simp]:
  "snake (shiftQueue s) = snake s" "score (shiftQueue s) = score s"
  "foods (shiftQueue s) = foods s" "word (shiftQueue s) = word s"
  "wordIndex (shiftQueue s) = wordIndex s" "speed (shiftQueue s) = speed s"
  "highScore (shiftQueue s) = highScore s" "gameOver (shiftQueue s) = gameOver s"
  "hasStarted (shiftQueue s) = hasStarted s" "isPaused (shiftQueue s) = isPaused s"
  "randomCalls (shiftQueue s) = randomCalls s" "setItemLog (shiftQueue s) = setItemLog s"
  by (simp_all add: shiftQueue_def split: list.splits)

lemma shiftQueue_direction [simp]: "direction (shiftQueue s) = currentNextDir s"
  by (simp add: shiftQueue_def currentNextDir_def split: list.splits)

lemma shiftQueue_queue [simp]: "directionQueue (shiftQueue s) = tl (directionQueue s)"
  by (simp add: shiftQueue_def split: list.splits)

text \<open>The branches of the callback, one equation each.\<close>

lemma step_idle: "\<not> running s \<Longrightarrow> step tape s = Inr s"
  by (auto simp: step_def running_def)

lemma step_empty_snake: "running s \<Longrightarrow> snake s = [] \<Longrightarrow> step tape s = Inl TypeError"
  by (simp add: step_def running_def)

lemma step_wall:
  "running s \<Longrightarrow> snake s \<noteq> [] \<Longrightarrow> hitsWall (nextHead s) \<Longrightarrow>
   step tape s = Inr ((shiftQueue s)\<lparr>gameOver := True\<rparr>)"
  by (cases "snake s") (simp_all add: step_def running_def nextHead_def Let_def)

lemma step_self:
  "running s \<Longrightarrow> snake s \<noteq> [] \<Longrightarrow> isOccupied (snake s) (nextHead s) \<Longrightarrow>
   step tape s = Inr ((shiftQueue s)\<lparr>gameOver := True\<rparr>)"
  by (cases "snake s") (simp_all add: step_def running_def nextHead_def Let_def)

lemma step_move:
  "running s \<Longrightarrow> snake s \<noteq> [] \<Longrightarrow> \<not> hitsWall (nextHead s) \<Longrightarrow>
   \<not> isOccupied (snake s) (nextHead s) \<Longrightarrow> eatenFoodIndex s = None \<Longrightarrow>
   step tape s = Inr ((shiftQueue s)\<lparr>snake := butlast (nextHead s # snake s)\<rparr>)"
  by (cases "snake s")
     (simp_all add: step_def running_def nextHead_def eatenFoodIndex_def Let_def)

lemma step_wrong:
  "running s \<Longrightarrow> snake s \<noteq> [] \<Longrightarrow> \<not> hitsWall (nextHead s) \<Longrightarrow>
   \<not> isOccupied (snake s) (nextHead s) \<Longrightarrow> eatenFoodIndex s = Some i \<Longrightarrow>
   \<not> letterMatches (foods s ! i) (word s) (wordIndex s) \<Longrightarrow>
   step tape s = Inr ((shiftQueue s)\<lparr>gameOver := True\<rparr>)"
  by (cases "snake s")
     (simp_all add: step_def running_def nextHead_def eatenFoodIndex_def Let_def)

lemma step_eat:
  "running s \<Longrightarrow> snake s \<noteq> [] \<Longrightarrow> \<not> hitsWall (nextHead s) \<Longrightarrow>
   \<not> isOccupied (snake s) (nextHead s) \<Longrightarrow> eatenFoodIndex s = Some i \<Longrightarrow>
   letterMatches (foods s ! i) (word s) (wordIndex s) \<Longrightarrow>
   \<not> wordIndex s + 1 \<ge> length (word s) \<Longrightarrow>
   step tape s = Inr ((shiftQueue s)\<lparr>score := score s + 10, wordIndex := wordIndex s + 1,
                                      foods := splice1 i (foods s),
                                      snake := nextHead s # snake s\<rparr>)"
  by (cases "snake s")
     (simp_all add: step_def running_def nextHead_def eatenFoodIndex_def Let_def)

lemma step_complete:
  "running s \<Longrightarrow> snake s \<noteq> [] \<Longrightarrow> \<not> hitsWall (nextHead s) \<Longrightarrow>
   \<not> isOccupied (snake s) (nextHead s) \<Longrightarrow> eatenFoodIndex s = Some i \<Longrightarrow>
   letterMatches (foods s ! i) (word s) (wordIndex s) \<Longrightarrow>
   wordIndex s + 1 \<ge> length (word s) \<Longrightarrow>
   generateFoodsForWord tape (randomCalls s + 1)
     (WORDS ! random_below tape (randomCalls s) (length WORDS)) (nextHead s # snake s)
     = Some (genFoods, k') \<Longrightarrow>
   step tape s =
     Inr ((shiftQueue s)\<lparr>score := score s + 10 + 50,
                           word := WORDS ! random_below tape (randomCalls s) (length WORDS),
                           wordIndex := 0, foods := genFoods, speed := max 60 (speed s - 5),
                           snake := nextHead s # snake s, randomCalls := k'\<rparr>)"
  by (cases "snake s")
     (simp_all add: step_def running_def nextHead_def eatenFoodIndex_def Let_def)

lemma step_complete_hangs:
  "running s \<Longrightarrow> snake s \<noteq> [] \<Longrightarrow> \<not> hitsWall (nextHead s) \<Longrightarrow>
   \<not> isOccupied (snake s) (nextHead s) \<Longrightarrow> eatenFoodIndex s = Some i \<Longrightarrow>
   letterMatches (foods s ! i) (word s) (wordIndex s) \<Longrightarrow>
   wordIndex s + 1 \<ge> length (word s) \<Longrightarrow>
   generateFoodsForWord tape (randomCalls s + 1)
     (WORDS ! random_below tape (randomCalls s) (length WORDS)) (nextHead s # snake s)
     = None \<Longrightarrow>
   step tape s = Inl NeverReturns"
  by (cases "snake s")
     (simp_all add: step_def running_def nextHead_def eatenFoodIndex_def Let_def)

text \<open>Right after a render the two readings of the callback agree.\<close>

lemma stepOn_settled: "stepOn tape s s = step tape s"
  unfolding stepOn_def step_def currentNextDir_def Let_def by (rule refl)

text \<open>Every tick that returns took one of the branches.\<close>

lemma step_Inr_cases:
  assumes "step tape s = Inr s'"
  obtains
    (idle) "\<not> running s" "s' = s"
  | (over) "running s" "snake s \<noteq> []" "s' = (shiftQueue s)\<lparr>gameOver := True\<rparr>"
  | (move) "running s" "snake s \<noteq> []" "eatenFoodIndex s = None"
      "s' = (shiftQueue s)\<lparr>snake := butlast (nextHead s # snake s)\<rparr>"
  | (eat) i where "running s" "snake s \<noteq> []" "eatenFoodIndex s = Some i"
      "s' = (shiftQueue s)\<lparr>score := score s + 10, wordIndex := wordIndex s + 1,
                            foods := splice1 i (foods s), snake := nextHead s # snake s\<rparr>"
  | (complete) i genFoods k' where "running s" "snake s \<noteq> []" "eatenFoodIndex s = Some i"
      "generateFoodsForWord tape (randomCalls s + 1)
         (WORDS ! random_below tape (randomCalls s) (length WORDS)) (nextHead s # snake s)
         = Some (genFoods, k')"
      "s' = (shiftQueue s)\<lparr>score := score s + 10 + 50,
                            word := WORDS ! random_below tape (randomCalls s) (length WORDS),
                            wordIndex := 0, foods := genFoods, speed := max 60 (speed s - 5),
                            snake := nextHead s # snake s, randomCalls := k'\<rparr>"
proof (cases "running s")
  case False
  from assms step_idle[OF False, of tape] have "s' = s" by simp
  with False show ?thesis by (rule idle)
next
  case r: True
  show ?thesis
  proof (cases "snake s = []")
    case True
    from assms step_empty_snake[OF r True, of tape] show ?thesis by simp
  next
    case ne: False
    show ?thesis
    proof (cases "hitsWall (nextHead s)")
      case True
      from assms step_wall[OF r ne True, of tape]
      have "s' = (shiftQueue s)\<lparr>gameOver := True\<rparr>" by simp
      then show ?thesis by (rule over[OF r ne])
    next
      case nw: False
      show ?thesis
      proof (cases "isOccupied (snake s) (nextHead s)")
        case True
        from assms step_self[OF r ne True, of tape]
        have "s' = (shiftQueue s)\<lparr>gameOver := True\<rparr>" by simp
        then show ?thesis by (rule over[OF r ne])
      next
        case no: False
        show ?thesis
        proof (cases "eatenFoodIndex s")
          case None
          from assms step_move[OF r ne nw no None, of tape]
          have "s' = (shiftQueue s)\<lparr>snake := butlast (nextHead s # snake s)\<rparr>" by simp
          then show ?thesis by (rule move[OF r ne None])
        next
          case (Some i)
          show ?thesis
          proof (cases "letterMatches (foods s ! i) (word s) (wordIndex s)")
            case False
            from assms step_wrong[OF r ne nw no Some False, of tape]
            have "s' = (shiftQueue s)\<lparr>gameOver := True\<rparr>" by simp
            then show ?thesis by (rule over[OF r ne])
          next
            case lm: True
            show ?thesis
            proof (cases "wordIndex s + 1 \<ge> length (word s)")
              case False
              from assms step_eat[OF r ne nw no Some lm False, of tape]
              have "s' = (shiftQueue s)\<lparr>score := score s + 10, wordIndex := wordIndex s + 1,
                            foods := splice1 i (foods s), snake := nextHead s # snake s\<rparr>"
                by simp
              then show ?thesis by (rule eat[OF r ne Some])
            next
              case last: True
              show ?thesis
              proof (cases "generateFoodsForWord tape (randomCalls s + 1)
                  (WORDS ! random_below tape (randomCalls s) (length WORDS)) (nextHead s # snake s)")
                case None
                from step_complete_hangs[OF r ne nw no Some lm last None] assms
                show ?thesis by simp
              next
                case gen: (Some a)
                obtain genFoods k' where a: "a = (genFoods, k')" by (cases a)
                from assms step_complete[OF r ne nw no Some lm last gen[unfolded a]]
                have "s' = (shiftQueue s)\<lparr>score := score s + 10 + 50,
                            word := WORDS ! random_below tape (randomCalls s) (length WORDS),
                            wordIndex := 0, foods := genFoods, speed := max 60 (speed s - 5),
                            snake := nextHead s # snake s, randomCalls := k'\<rparr>"
                  by simp
                then show ?thesis by (rule complete[OF r ne Some gen[unfolded a]])
              qed
            qed
          qed
        qed
      qed
    qed
  qed
qed


text \<open>The demonstration games, evaluated.\<close>

lemma demoGame_facts:
  "running demoGame" "snake demoGame \<noteq> []" "nextHead demoGame = \<lparr>x = 10, y = 9\<rparr>"
  "eatenFoodIndex demoGame = Some 0" "currentNextDir demoGame = \<lparr>x = 0, y = - 1\<rparr>"
  by (simp_all add: demoGame_def running_def nextHead_def eatenFoodIndex_def newHeadOf_def
      currentNextDir_def INITIAL_SNAKE_def INITIAL_DIRECTION_def)




section \<open>Collisions\<close>



section \<open>The length of the snake\<close>


lemma step_demoGame:
  "step tape demoGame =
     Inr (demoGame\<lparr>score := 10, wordIndex := 1,
                   foods := [\<lparr>x = 5, y = 5, ident = ''1-5-5'', letter = CHR ''B''\<rparr>],
                   snake := \<lparr>x = 10, y = 9\<rparr> # INITIAL_SNAKE\<rparr>)"
proof -
  have "\<not> hitsWall (nextHead demoGame)" "\<not> isOccupied (snake demoGame) (nextHead demoGame)"
    by (simp_all add: demoGame_facts hitsWall_def GRID_SIZE_def isOccupied_def)
       (simp add: demoGame_def INITIAL_SNAKE_def)
  moreover have "letterMatches (foods demoGame ! 0) (word demoGame) (wordIndex demoGame)"
    "\<not> wordIndex demoGame + 1 \<ge> length (word demoGame)"
    by (simp_all add: demoGame_def letterMatches_def)
  ultimately have st: "step tape demoGame =
      Inr ((shiftQueue demoGame)\<lparr>score := score demoGame + 10, wordIndex := wordIndex demoGame + 1,
             foods := splice1 0 (foods demoGame),
             snake := nextHead demoGame # snake demoGame\<rparr>)"
    using step_eat[OF demoGame_facts(1,2) _ _ demoGame_facts(4)] by blast
  have "(shiftQueue demoGame)\<lparr>score := score demoGame + 10, wordIndex := wordIndex demoGame + 1,
             foods := splice1 0 (foods demoGame),
             snake := nextHead demoGame # snake demoGame\<rparr>
        = demoGame\<lparr>score := 10, wordIndex := 1,
                   foods := [\<lparr>x = 5, y = 5, ident = ''1-5-5'', letter = CHR ''B''\<rparr>],
                   snake := \<lparr>x = 10, y = 9\<rparr> # INITIAL_SNAKE\<rparr>"
    by (simp add: demoGame_facts(3)) (simp add: demoGame_def shiftQueue_def splice1_def)
  with st show ?thesis by (simp only:)
qed


section \<open>A wrong letter\<close>




lemma findIndex_Some:
  "findIndex p as = Some i \<Longrightarrow> i < length as \<and> p (as ! i) \<and> (\<forall>j < i. \<not> p (as ! j))"
proof (induction as arbitrary: i)
  case Nil
  then show ?case by simp
next
  case (Cons a as)
  show ?case
  proof (cases "p a")
    case True
    with Cons.prems show ?thesis by simp
  next
    case False
    with Cons.prems obtain i' where i': "findIndex p as = Some i'" "i = i' + 1"
      by (auto split: option.splits)
    from Cons.IH[OF i'(1)] False i'(2) show ?thesis
      by (auto simp: nth_Cons split: nat.splits)
  qed
qed

lemma findIndex_None: "findIndex p as = None \<longleftrightarrow> (\<forall>a \<in> set as. \<not> p a)"
  by (induction as) (auto split: option.splits)

lemma nth_WORDS: "n < 20 \<Longrightarrow> WORDS ! n \<in> set WORDS"
  by (rule nth_mem) (simp add: WORDS_def)

lemma random_word: "WORDS ! random_below tape k (length WORDS) \<in> set WORDS"
  by (rule nth_mem) (simp add: random_below_def WORDS_def)

lemma length_WORDS: "w \<in> set WORDS \<Longrightarrow> length w \<le> 11"
  by (auto simp: WORDS_def)

lemma room_for_next_word:
  assumes "length sn \<le> 388"
  shows "length (WORDS ! random_below tape k (length WORDS)) \<le> card (set gridCells - set (c # sn))"
proof -
  have "length (WORDS ! random_below tape k (length WORDS)) \<le> 11"
    by (rule length_WORDS) (rule random_word)
  moreover have "400 - length (c # sn) \<le> card (set gridCells - set (c # sn))"
    by (rule card_free_cells)
  ultimately show ?thesis using assms by simp
qed

section \<open>When the callbacks return\<close>

lemma generateFoodsForWord_returns:
  assumes "fair tape" and "length w \<le> card (set gridCells - set occ)"
  shows "\<exists>fs k'. generateFoodsForWord tape k w occ = Some (fs, k')"
proof -
  from assms(2) have "length w - 0 \<le> card (set gridCells - set occ)" by simp
  from foodsLoop_returns[OF assms(1) this, of k "[]"] show ?thesis
    unfolding generateFoodsForWord_def by force
qed

text \<open>A reset returns whenever the random source is fair.\<close>

lemma resetGame_returns:
  assumes "fair tape"
  shows "\<exists>s'. resetGame tape s = Inr s'"
proof -
  have "INITIAL_SNAKE = \<lparr>x = 10, y = 10\<rparr> # [\<lparr>x = 10, y = 11\<rparr>, \<lparr>x = 10, y = 12\<rparr>]"
    by (simp add: INITIAL_SNAKE_def)
  moreover have "length (WORDS ! random_below tape (randomCalls s) (length WORDS))
      \<le> card (set gridCells - set (\<lparr>x = 10, y = 10\<rparr> # [\<lparr>x = 10, y = 11\<rparr>, \<lparr>x = 10, y = 12\<rparr>]))"
    by (rule room_for_next_word) simp
  ultimately have "length (WORDS ! random_below tape (randomCalls s) (length WORDS))
      \<le> card (set gridCells - set INITIAL_SNAKE)" by simp
  from generateFoodsForWord_returns[OF assms this, of "randomCalls s + 1"]
  obtain fs k' where "generateFoodsForWord tape (randomCalls s + 1)
      (WORDS ! random_below tape (randomCalls s) (length WORDS)) INITIAL_SNAKE = Some (fs, k')"
    by blast
  then show ?thesis by (simp add: resetGame_def)
qed


section \<open>Inputs\<close>

lemma highScoreEffect_fields [simp]:
  "hasStarted (highScoreEffect s) = hasStarted s" "snake (highScoreEffect s) = snake s"
  "direction (highScoreEffect s) = direction s"
  "directionQueue (highScoreEffect s) = directionQueue s"
  "word (highScoreEffect s) = word s" "wordIndex (highScoreEffect s) = wordIndex s"
  "foods (highScoreEffect s) = foods s" "score (highScoreEffect s) = score s"
  "gameOver (highScoreEffect s) = gameOver s" "isPaused (highScoreEffect s) = isPaused s"
  "speed (highScoreEffect s) = speed s" "randomCalls (highScoreEffect s) = randomCalls s"
  by (simp_all add: highScoreEffect_def)

lemma highScoreEffect_log:
  "setItemLog (highScoreEffect s) =
     (if highScore s < score s then setItemLog s @ [score s] else setItemLog s)"
  by (simp add: highScoreEffect_def)

lemma highScoreEffect_highScore: "highScore (highScoreEffect s) = max (highScore s) (score s)"
  by (simp add: highScoreEffect_def)

lemma react_Inr:
  "react tape i s = Inr s' \<longleftrightarrow> (\<exists>t. handle tape i s = Inr t \<and> s' = highScoreEffect t)"
  by (auto simp: react_def split: sum.splits)

lemma lastDir_last: "lastDir s s = last (direction s # directionQueue s)"
  by (simp add: lastDir_def)

lemma chainOk_snoc:
  "chainOk d (q @ [e]) \<longleftrightarrow> chainOk d q \<and> e \<noteq> last (d # q) \<and> e \<noteq> negated (last (d # q))"
  by (induction q arbitrary: d) auto

lemma isUnit_not_negated: "isUnit d \<Longrightarrow> d \<noteq> negated d"
  by (auto simp: isUnit_def negated_def)

lemma keyDir_cases:
  assumes "keyDir key ld = Some d"
  obtains "y ld \<noteq> 1" "d = \<lparr>x = 0, y = - 1\<rparr>"
  | "y ld \<noteq> - 1" "d = \<lparr>x = 0, y = 1\<rparr>"
  | "x ld \<noteq> 1" "d = \<lparr>x = - 1, y = 0\<rparr>"
  | "x ld \<noteq> - 1" "d = \<lparr>x = 1, y = 0\<rparr>"
  using assms unfolding keyDir_def
  by (simp only: split: if_splits) (simp_all only: option.inject option.distinct, blast+)

lemma keyDir_Some: "keyDir key ld = Some d \<Longrightarrow> isUnit d \<and> d \<noteq> negated ld"
  by (erule keyDir_cases) (auto simp: isUnit_def negated_def)

lemma buttonDir_unit: "isUnit (buttonDir b)"
  by (cases b) (simp_all add: isUnit_def)

lemma pushIfChanged_queue:
  "directionQueue (pushIfChanged d s s) =
     (if d \<noteq> lastDir s s then directionQueue s @ [d] else directionQueue s)"
  by (auto simp: pushIfChanged_def)

lemma pushIfChanged_fields [simp]:
  "direction (pushIfChanged d s s) = direction s" "score (pushIfChanged d s s) = score s"
  "hasStarted (pushIfChanged d s s) = hasStarted s" "gameOver (pushIfChanged d s s) = gameOver s"
  "isPaused (pushIfChanged d s s) = isPaused s" "highScore (pushIfChanged d s s) = highScore s"
  "setItemLog (pushIfChanged d s s) = setItemLog s" "snake (pushIfChanged d s s) = snake s"
  "foods (pushIfChanged d s s) = foods s"
  by (simp_all add: pushIfChanged_def)

lemma pushIfChanged_pushOk: "d \<noteq> negated (lastDir s s) \<Longrightarrow> pushOk s (pushIfChanged d s s)"
  by (simp add: pushOk_def pushIfChanged_queue)

lemma pushOk_refl: "pushOk s s"
  by (simp add: pushOk_def)

lemma pushOk_same: "direction s' = direction s \<Longrightarrow> directionQueue s' = directionQueue s \<Longrightarrow> pushOk s s'"
  by (simp add: pushOk_def)

lemma handleKeyDown_pushOk: "pushOk s (handleKeyDown key s s)"
proof (cases "keyDir key (lastDir s s)")
  case None
  then show ?thesis by (simp add: handleKeyDown_def pushOk_refl pushOk_same)
next
  case (Some d)
  from keyDir_Some[OF Some] have "pushOk s (pushIfChanged d s s)"
    by (simp add: pushIfChanged_pushOk)
  with Some show ?thesis by (simp add: handleKeyDown_def pushOk_refl pushOk_same)
qed

lemma click_not_reversal:
  assumes "\<not> (x ld \<noteq> 0 \<and> x d = - x ld)" and "\<not> (y ld \<noteq> 0 \<and> y d = - y ld)" and "d \<noteq> ld"
  shows "d \<noteq> negated ld"
proof
  assume n: "d = negated ld"
  then have "x d = - x ld" "y d = - y ld" by (simp_all add: negated_def)
  with assms(1,2) have "x ld = 0" "y ld = 0" by auto
  with n have "d = ld" by (simp add: negated_def)
  with assms(3) show False by simp
qed

lemma handleDirectionClick_pushOk: "pushOk s (handleDirectionClick d s s)"
proof (cases "d = lastDir s s")
  case True
  then show ?thesis
    by (simp add: handleDirectionClick_def pushOk_refl pushOk_same pushIfChanged_queue)
next
  case False
  show ?thesis
  proof (cases "(x (lastDir s s) \<noteq> 0 \<and> x d = - x (lastDir s s)) \<or> (y (lastDir s s) \<noteq> 0 \<and> y d = - y (lastDir s s))
                \<or> \<not> hasStarted s \<or> gameOver s \<or> isPaused s")
    case True
    then have "handleDirectionClick d s s = s" by (auto simp: handleDirectionClick_def)
    then show ?thesis by (simp add: pushOk_refl)
  next
    case pass: False
    then have "handleDirectionClick d s s = pushIfChanged d s s"
      by (auto simp: handleDirectionClick_def)
    moreover have "d \<noteq> negated (lastDir s s)"
      using pass False by (intro click_not_reversal) auto
    ultimately show ?thesis by (simp add: pushIfChanged_pushOk)
  qed
qed

text \<open>The queue discipline is kept by every input.\<close>

lemma dirInv_cong:
  "direction t = direction s \<Longrightarrow> directionQueue t = directionQueue s \<Longrightarrow> dirInv t = dirInv s"
  by (simp add: dirInv_def)

lemma dirInv_shiftQueue: "dirInv s \<Longrightarrow> dirInv (shiftQueue s)"
  by (cases "directionQueue s") (simp_all add: dirInv_def shiftQueue_def)

lemma dirInv_pushed:
  assumes "dirInv s" and "pushOk s s'" and "isUnit (last (direction s' # directionQueue s'))"
  shows "dirInv s'"
proof (cases "directionQueue s' = directionQueue s")
  case True
  with assms(1,2) show ?thesis by (simp add: pushOk_def dirInv_def)
next
  case False
  with assms(2) have q: "directionQueue s' \<noteq> []" "butlast (directionQueue s') = directionQueue s"
    "last (directionQueue s') \<noteq> lastDir s s" "last (directionQueue s') \<noteq> negated (lastDir s s)"
    and d: "direction s' = direction s"
    by (auto simp: pushOk_def)
  from q(1,2) have eq: "directionQueue s' = directionQueue s @ [last (directionQueue s')]"
    by (metis append_butlast_last_id)
  have u: "isUnit (last (directionQueue s'))" using assms(3) q(1) by simp
  have "list_all isUnit (directionQueue s')"
    using assms(1) u by (subst eq) (simp add: dirInv_def)
  moreover have "chainOk (direction s') (directionQueue s')"
    using assms(1) q(3,4) d by (subst eq) (simp add: chainOk_snoc dirInv_def lastDir_last)
  ultimately show ?thesis using assms(1) d by (simp add: dirInv_def)
qed

lemma handleKeyDown_last_unit:
  "dirInv s \<Longrightarrow> isUnit (last (direction (handleKeyDown key s s) # directionQueue (handleKeyDown key s s)))"
proof -
  assume inv: "dirInv s"
  then have u: "isUnit (last (direction s # directionQueue s))"
    by (cases "directionQueue s = []") (auto simp: dirInv_def list_all_iff)
  show ?thesis
  proof (cases "directionQueue (handleKeyDown key s s) = directionQueue s")
    case True
    moreover have "direction (handleKeyDown key s s) = direction s"
      using handleKeyDown_pushOk[of s key] by (simp add: pushOk_def)
    ultimately show ?thesis using u by simp
  next
    case False
    then obtain d where d: "keyDir key (lastDir s s) = Some d"
      "directionQueue (handleKeyDown key s s) = directionQueue s @ [d]"
      by (auto simp: handleKeyDown_def pushIfChanged_queue split: if_splits option.splits)
    from keyDir_Some[OF d(1)] d(2) show ?thesis by simp
  qed
qed

lemma handleDirectionClick_last_unit:
  assumes "dirInv s" and "isUnit d"
  shows "isUnit (last (direction (handleDirectionClick d s s) # directionQueue (handleDirectionClick d s s)))"
proof -
  from assms(1) have u: "isUnit (last (direction s # directionQueue s))"
    by (cases "directionQueue s = []") (auto simp: dirInv_def list_all_iff)
  show ?thesis
  proof (cases "directionQueue (handleDirectionClick d s s) = directionQueue s")
    case True
    moreover have "direction (handleDirectionClick d s s) = direction s"
      using handleDirectionClick_pushOk[of s d] by (simp add: pushOk_def)
    ultimately show ?thesis using u by simp
  next
    case False
    then have "directionQueue (handleDirectionClick d s s) = directionQueue s @ [d]"
      by (auto simp: handleDirectionClick_def pushIfChanged_queue split: if_splits)
    with assms(2) show ?thesis by simp
  qed
qed

lemma dirInv_step: "dirInv s \<Longrightarrow> step tape s = Inr s' \<Longrightarrow> dirInv s'"
proof -
  assume inv: "dirInv s" and st: "step tape s = Inr s'"
  have sh: "dirInv (shiftQueue s)" using inv by (rule dirInv_shiftQueue)
  from st show ?thesis
  proof (cases rule: step_Inr_cases)
    case idle
    with inv show ?thesis by simp
  next
    case over
    then show ?thesis using sh by (simp add: dirInv_def)
  next
    case move
    then show ?thesis using sh by (simp add: dirInv_def)
  next
    case (eat i)
    then show ?thesis using sh by (simp add: dirInv_def)
  next
    case (complete i genFoods k')
    then show ?thesis using sh by (simp add: dirInv_def)
  qed
qed

lemma resetGame_Inr:
  "resetGame tape s = Inr s' \<Longrightarrow>
   direction s' = INITIAL_DIRECTION \<and> directionQueue s' = [] \<and> score s' = 0 \<and>
   snake s' = INITIAL_SNAKE \<and> speed s' = BASE_SPEED \<and> wordIndex s' = 0 \<and>
   \<not> gameOver s' \<and> \<not> isPaused s' \<and> hasStarted s' = hasStarted s \<and>
   highScore s' = highScore s \<and> setItemLog s' = setItemLog s"
  by (auto simp: resetGame_def Let_def split: option.splits)

lemma dirInv_handle: "dirInv s \<Longrightarrow> handle tape i s = Inr s' \<Longrightarrow> dirInv s'"
proof (cases i)
  case Tick
  assume "dirInv s" "handle tape i s = Inr s'"
  with Tick show ?thesis by (simp add: handle_def dirInv_step)
next
  case (KeyDown key)
  assume a: "dirInv s" "handle tape i s = Inr s'"
  with KeyDown have "s' = handleKeyDown key s s" by (simp add: handle_def)
  with a(1) show ?thesis
    using dirInv_pushed[OF a(1) handleKeyDown_pushOk handleKeyDown_last_unit[OF a(1)]] by simp
next
  case (DirectionClick b)
  assume a: "dirInv s" "handle tape i s = Inr s'"
  with DirectionClick have "s' = handleDirectionClick (buttonDir b) s s" by (simp add: handle_def)
  then show ?thesis
    using dirInv_pushed[OF a(1) handleDirectionClick_pushOk
        handleDirectionClick_last_unit[OF a(1) buttonDir_unit]] by simp
next
  case PauseClick
  assume "dirInv s" "handle tape i s = Inr s'"
  with PauseClick show ?thesis by (auto simp: handle_def pauseClick_def dirInv_def)
next
  case ResumeClick
  assume "dirInv s" "handle tape i s = Inr s'"
  with ResumeClick show ?thesis by (auto simp: handle_def resumeClick_def dirInv_def)
next
  case StartClick
  assume "dirInv s" "handle tape i s = Inr s'"
  with StartClick show ?thesis by (auto simp: handle_def startGame_def dirInv_def)
next
  case ResetClick
  assume a: "dirInv s" "handle tape i s = Inr s'"
  show ?thesis
  proof (cases "gameOver s")
    case True
    with a(2) ResetClick have "resetGame tape s = Inr s'" by (simp add: handle_def)
    from resetGame_Inr[OF this] show ?thesis
      by (simp add: dirInv_def INITIAL_DIRECTION_def isUnit_def)
  next
    case False
    with a ResetClick show ?thesis by (simp add: handle_def)
  qed
qed

lemma dirInv_react:
  assumes "dirInv s" and "react tape i s = Inr s'"
  shows "dirInv s'"
proof -
  from assms(2) obtain t where t: "handle tape i s = Inr t" "s' = highScoreEffect t"
    by (auto simp: react_Inr)
  from dirInv_handle[OF assms(1) t(1)] have "dirInv t" .
  moreover have "dirInv (highScoreEffect t) = dirInv t" by (rule dirInv_cong) simp_all
  ultimately show ?thesis using t(2) by simp
qed

lemma dirInv_run: "dirInv s \<Longrightarrow> run tape ins s = Inr s' \<Longrightarrow> dirInv s'"
proof (induction ins arbitrary: s)
  case Nil
  then show ?case by simp
next
  case (Cons i ins)
  from Cons.prems(2) obtain t where t: "react tape i s = Inr t" "run tape ins t = Inr s'"
    by (auto split: sum.splits)
  from Cons.IH[OF dirInv_react[OF Cons.prems(1) t(1)] t(2)] show ?case .
qed

lemma currentNextDir_not_reversed: "dirInv s \<Longrightarrow> currentNextDir s \<noteq> negated (direction s)"
  by (cases "directionQueue s") (auto simp: dirInv_def currentNextDir_def isUnit_not_negated)

lemma step_direction:
  "step tape s = Inr t \<Longrightarrow> direction t = direction s \<or> direction t = currentNextDir s"
  by (erule step_Inr_cases) simp_all

lemma handle_direction:
  assumes "handle tape i s = Inr t" and "i \<noteq> Tick" and "i \<noteq> ResetClick"
  shows "direction t = direction s"
proof (cases i)
  case (KeyDown key)
  with assms(1) handleKeyDown_pushOk[of s key] show ?thesis by (auto simp: handle_def pushOk_def)
next
  case (DirectionClick b)
  with assms(1) handleDirectionClick_pushOk[of s "buttonDir b"] show ?thesis
    by (auto simp: handle_def pushOk_def)
next
  case PauseClick
  with assms(1) show ?thesis by (auto simp: handle_def pauseClick_def)
next
  case ResumeClick
  with assms(1) show ?thesis by (auto simp: handle_def resumeClick_def)
next
  case StartClick
  with assms(1) show ?thesis by (auto simp: handle_def startGame_def)
qed (use assms in simp_all)

lemma handle_push:
  assumes "handle tape i s = Inr t" and "isPush i"
  shows "pushOk s t"
proof (cases i)
  case (KeyDown key)
  with assms(1) handleKeyDown_pushOk[of s key] show ?thesis by (auto simp: handle_def)
next
  case (DirectionClick b)
  with assms(1) handleDirectionClick_pushOk[of s "buttonDir b"] show ?thesis
    by (auto simp: handle_def)
qed (use assms(2) in \<open>simp_all add: isPush_def\<close>)

lemma pushOk_highScoreEffect: "pushOk s t \<Longrightarrow> pushOk s (highScoreEffect t)"
  by (simp add: pushOk_def)

section \<open>The committed direction when every input is rendered before the next\<close>

text \<open>
  When a render comes between any two inputs, every callback sees the state as it is.
  Then, from a state whose queue follows the discipline, no key, button or tick sets the
  committed direction to the exact negation of the value it had, and a key or a button
  appends at most one direction, which differs from the reference direction and from
  its reversal.
\<close>

lemma settled_direction_never_reversed:
  assumes "dirInv s0" and "run tape ins s0 = Inr s" and "react tape i s = Inr s'"
    and "i \<noteq> ResetClick"
  shows "direction s' \<noteq> negated (direction s) \<and> (isPush i \<longrightarrow> pushOk s s')"
proof -
  from dirInv_run[OF assms(1,2)] have inv: "dirInv s" .
  then have u: "direction s \<noteq> negated (direction s)"
    by (simp add: dirInv_def isUnit_not_negated)
  from assms(3) obtain t where t: "handle tape i s = Inr t" "s' = highScoreEffect t"
    by (auto simp: react_Inr)
  have "direction t \<noteq> negated (direction s)"
  proof (cases "i = Tick")
    case True
    with t(1) have "step tape s = Inr t" by (simp add: handle_def)
    from step_direction[OF this] u currentNextDir_not_reversed[OF inv] show ?thesis by auto
  next
    case False
    from handle_direction[OF t(1) False assms(4)] u show ?thesis by simp
  qed
  moreover have "isPush i \<longrightarrow> pushOk s s'"
    using handle_push[OF t(1)] t(2) by (auto intro: pushOk_highScoreEffect)
  ultimately show ?thesis using t(2) by simp
qed

lemma dirInv_demoGame: "dirInv demoGame"
  by (simp add: dirInv_def demoGame_def INITIAL_DIRECTION_def isUnit_def)

lemma keyDir_ArrowLeft: "keyDir ''ArrowLeft'' ld = (if x ld \<noteq> 1 then Some \<lparr>x = - 1, y = 0\<rparr> else None)"
  by (simp add: keyDir_def)

lemma handleKeyDown_ArrowLeft_demoGame:
  "handleKeyDown ''ArrowLeft'' demoGame demoGame = demoGame\<lparr>directionQueue := [\<lparr>x = - 1, y = 0\<rparr>]\<rparr>"
proof -
  have "lastDir demoGame demoGame = \<lparr>x = 0, y = - 1\<rparr>"
    by (simp add: lastDir_def demoGame_def INITIAL_DIRECTION_def)
  then show ?thesis
    by (simp add: handleKeyDown_def keyDir_ArrowLeft pushIfChanged_def)
       (simp add: demoGame_def)
qed

lemma step_left_turn:
  "step tape (demoGame\<lparr>directionQueue := [\<lparr>x = - 1, y = 0\<rparr>]\<rparr>) =
     Inr (demoGame\<lparr>direction := \<lparr>x = - 1, y = 0\<rparr>,
                   snake := [\<lparr>x = 9, y = 10\<rparr>, \<lparr>x = 10, y = 10\<rparr>, \<lparr>x = 10, y = 11\<rparr>]\<rparr>)"
proof -
  let ?s = "demoGame\<lparr>directionQueue := [\<lparr>x = - 1, y = 0\<rparr>]\<rparr>"
  have r: "running ?s" "snake ?s \<noteq> []" by (simp_all add: demoGame_facts[unfolded running_def] running_def)
  have nh: "nextHead ?s = \<lparr>x = 9, y = 10\<rparr>"
    by (simp add: nextHead_def newHeadOf_def currentNextDir_def demoGame_def INITIAL_SNAKE_def)
  have "\<not> hitsWall (nextHead ?s)" "\<not> isOccupied (snake ?s) (nextHead ?s)"
    "eatenFoodIndex ?s = None"
    by (simp_all add: nh hitsWall_def GRID_SIZE_def isOccupied_def eatenFoodIndex_def)
       (simp_all add: demoGame_def INITIAL_SNAKE_def)
  from step_move[OF r this, of tape] show ?thesis
    by (simp add: nh) (simp add: shiftQueue_def demoGame_def INITIAL_SNAKE_def)
qed


section \<open>The score and the high score\<close>

lemma handleKeyDown_fields [simp]:
  "score (handleKeyDown key s s) = score s" "highScore (handleKeyDown key s s) = highScore s"
  "setItemLog (handleKeyDown key s s) = setItemLog s" "hasStarted (handleKeyDown key s s) = hasStarted s"
  "gameOver (handleKeyDown key s s) = gameOver s"
  by (simp_all add: handleKeyDown_def split: option.splits)

lemma handleDirectionClick_fields [simp]:
  "score (handleDirectionClick d s s) = score s" "highScore (handleDirectionClick d s s) = highScore s"
  "setItemLog (handleDirectionClick d s s) = setItemLog s"
  "hasStarted (handleDirectionClick d s s) = hasStarted s"
  "gameOver (handleDirectionClick d s s) = gameOver s"
  by (simp_all add: handleDirectionClick_def)

lemma step_score:
  assumes "step tape s = Inr t"
  shows "(score t = score s \<or>
          (score t = score s + 10 \<or> score t = score s + 60) \<and> running s \<and> \<not> gameOver t) \<and>
         highScore t = highScore s \<and> setItemLog t = setItemLog s \<and> hasStarted t = hasStarted s"
  using assms
proof (cases rule: step_Inr_cases)
  case (eat i)
  then show ?thesis by (simp add: running_def)
next
  case (complete i genFoods k')
  then show ?thesis by (simp add: running_def)
qed simp_all

lemma handle_other:
  assumes "handle tape i s = Inr t" and "i \<noteq> Tick"
  shows "highScore t = highScore s \<and> setItemLog t = setItemLog s \<and>
         (if i = ResetClick \<and> gameOver s then score t = 0 else score t = score s) \<and>
         (if i = StartClick then hasStarted t else hasStarted t = hasStarted s)"
proof (cases i)
  case Tick
  with assms(2) show ?thesis by simp
next
  case (KeyDown key)
  with assms(1) show ?thesis by (auto simp: handle_def)
next
  case (DirectionClick b)
  with assms(1) show ?thesis by (auto simp: handle_def)
next
  case PauseClick
  with assms(1) have "t = pauseClick s s" by (simp add: handle_def)
  with PauseClick show ?thesis by (simp add: pauseClick_def)
next
  case ResumeClick
  with assms(1) have "t = s \<or> t = resumeClick s" by (auto simp: handle_def)
  with ResumeClick show ?thesis by (auto simp: resumeClick_def)
next
  case StartClick
  with assms(1) have "t = s \<and> hasStarted s \<or> t = startGame s"
    by (cases "hasStarted s") (simp_all add: handle_def)
  with StartClick show ?thesis by (auto simp: startGame_def)
next
  case ResetClick
  show ?thesis
  proof (cases "gameOver s")
    case True
    with assms(1) ResetClick have "resetGame tape s = Inr t" by (simp add: handle_def)
    from resetGame_Inr[OF this] ResetClick True show ?thesis by simp
  next
    case False
    with assms(1) ResetClick show ?thesis by (simp add: handle_def)
  qed
qed

text \<open>What one input does to the score.\<close>

lemma react_score:
  assumes "hasStarted s \<or> score s = 0" and "react tape i s = Inr s'"
  shows "(i = Tick \<longrightarrow> score s' = score s \<or> score s' = score s + 10 \<or> score s' = score s + 60) \<and>
         (i \<noteq> Tick \<and> \<not> (i = ResetClick \<and> gameOver s) \<longrightarrow> score s' = score s) \<and>
         (i = ResetClick \<and> gameOver s \<longrightarrow> score s' = 0) \<and>
         (i = StartClick \<and> \<not> hasStarted s \<longrightarrow> score s' = 0 \<and> hasStarted s') \<and>
         (hasStarted s' \<or> score s' = 0)"
proof -
  from assms(2) obtain t where t: "handle tape i s = Inr t" "s' = highScoreEffect t"
    by (auto simp: react_Inr)
  have s': "score s' = score t" "hasStarted s' = hasStarted t" using t(2) by simp_all
  show ?thesis
  proof (cases "i = Tick")
    case True
    with t(1) have st: "step tape s = Inr t" by (simp add: handle_def)
    from step_score[OF st] have
      sc: "score t = score s \<or> score t = score s + 10 \<or> score t = score s + 60"
      and hs: "hasStarted t = hasStarted s"
      and rn: "score t \<noteq> score s \<longrightarrow> running s" by auto
    have "hasStarted t \<or> score t = 0"
    proof (cases "score t = score s")
      case True
      with assms(1) hs show ?thesis by simp
    next
      case False
      with rn hs show ?thesis by (simp add: running_def)
    qed
    with sc True show ?thesis by (simp add: s')
  next
    case nt: False
    note o = handle_other[OF t(1) nt]
    show ?thesis
    proof (cases "i = ResetClick \<and> gameOver s")
      case True
      with o have "score t = 0" by simp
      with True nt show ?thesis by (simp add: s')
    next
      case nr: False
      with o have sc: "score t = score s" by simp
      show ?thesis
      proof (cases "i = StartClick")
        case True
        with o have "hasStarted t" by simp
        with sc True assms(1) show ?thesis by (auto simp: s')
      next
        case False
        with o have "hasStarted t = hasStarted s" by simp
        with sc False nt nr assms(1) show ?thesis by (auto simp: s')
      qed
    qed
  qed
qed

text \<open>
  Claim C6. Take a state in which a game that has not started has score 0 (the initial
  state is one, and every input keeps it so), and a fair random source. A reset,
  available when the game is over, returns and sets the score to 0. A start, available
  before the game has started, returns and leaves the score at 0. Of the other inputs,
  whenever one returns, a tick has added 0, 10 or 60 to the score and every other input
  has left it as it is. So within a game the score never goes down, and it is 0 after
  reset and after start.
\<close>

theorem score_monotone_reset_on_restart:
  assumes "hasStarted s \<or> score s = 0" and "fair tape"
  shows "(gameOver s \<longrightarrow> (\<exists>s'. react tape ResetClick s = Inr s' \<and> score s' = 0)) \<and>
         (\<not> hasStarted s \<longrightarrow>
            (\<exists>s'. react tape StartClick s = Inr s' \<and> score s' = 0 \<and> hasStarted s')) \<and>
         (\<forall>i s'. react tape i s = Inr s' \<longrightarrow>
            (i = Tick \<longrightarrow> score s' = score s \<or> score s' = score s + 10 \<or> score s' = score s + 60) \<and>
            (i \<noteq> Tick \<and> \<not> (i = ResetClick \<and> gameOver s) \<longrightarrow> score s' = score s) \<and>
            (i = ResetClick \<and> gameOver s \<longrightarrow> score s' = 0) \<and>
            (i = StartClick \<and> \<not> hasStarted s \<longrightarrow> score s' = 0 \<and> hasStarted s') \<and>
            (hasStarted s' \<or> score s' = 0))"
proof -
  have reset: "\<exists>s'. react tape ResetClick s = Inr s' \<and> score s' = 0" if "gameOver s"
  proof -
    from resetGame_returns[OF assms(2), of s] obtain t where t: "resetGame tape s = Inr t"
      by blast
    from resetGame_Inr[OF t] have "score (highScoreEffect t) = 0" by simp
    moreover from t that have "react tape ResetClick s = Inr (highScoreEffect t)"
      by (simp add: react_def handle_def)
    ultimately show ?thesis by blast
  qed
  have start: "\<exists>s'. react tape StartClick s = Inr s' \<and> score s' = 0 \<and> hasStarted s'"
    if "\<not> hasStarted s"
  proof -
    from that have "react tape StartClick s = Inr (highScoreEffect (startGame s))"
      by (simp add: react_def handle_def)
    moreover from that assms(1) have "score (highScoreEffect (startGame s)) = 0"
      "hasStarted (highScoreEffect (startGame s))"
      by (simp_all add: startGame_def)
    ultimately show ?thesis by blast
  qed
  from reset start react_score[OF assms(1)] show ?thesis by blast
qed

lemma react_Tick_demoGame: "react tape Tick demoGame = Inr demoGameFed"
  by (simp add: react_def handle_def step_demoGame highScoreEffect_def)
     (simp add: demoGameFed_def demoGame_def)

text \<open>The reset of the witness, evaluated.\<close>

lemma generateFoodsForWord_reset:
  "generateFoodsForWord tape0 1 ''SERPENTE'' INITIAL_SNAKE =
     Some ([\<lparr>x = 0, y = 1, ident = ''0-0-1'', letter = CHR ''S''\<rparr>,
            \<lparr>x = 0, y = 2, ident = ''1-0-2'', letter = CHR ''E''\<rparr>,
            \<lparr>x = 0, y = 3, ident = ''2-0-3'', letter = CHR ''R''\<rparr>,
            \<lparr>x = 0, y = 4, ident = ''3-0-4'', letter = CHR ''P''\<rparr>,
            \<lparr>x = 0, y = 5, ident = ''4-0-5'', letter = CHR ''E''\<rparr>,
            \<lparr>x = 0, y = 6, ident = ''5-0-6'', letter = CHR ''N''\<rparr>,
            \<lparr>x = 0, y = 7, ident = ''6-0-7'', letter = CHR ''T''\<rparr>,
            \<lparr>x = 0, y = 8, ident = ''7-0-8'', letter = CHR ''E''\<rparr>], 17)"
  by (simp add: generateFoodsForWord_def foodsLoop.simps findFreePos.simps isOccupied_def
      samplePos_def random_below_def tape0_def GRID_SIZE_def INITIAL_SNAKE_def mkFood_def
      foodId_def numberToString_def decimal.simps char_of_def bit_0)

lemma react_ResetClick_overGame:
  "react tape0 ResetClick overGame =
     Inr (overGame
            \<lparr>snake := INITIAL_SNAKE, direction := INITIAL_DIRECTION, directionQueue := [],
             word := ''SERPENTE'', wordIndex := 0,
             foods := [\<lparr>x = 0, y = 1, ident = ''0-0-1'', letter = CHR ''S''\<rparr>,
                       \<lparr>x = 0, y = 2, ident = ''1-0-2'', letter = CHR ''E''\<rparr>,
                       \<lparr>x = 0, y = 3, ident = ''2-0-3'', letter = CHR ''R''\<rparr>,
                       \<lparr>x = 0, y = 4, ident = ''3-0-4'', letter = CHR ''P''\<rparr>,
                       \<lparr>x = 0, y = 5, ident = ''4-0-5'', letter = CHR ''E''\<rparr>,
                       \<lparr>x = 0, y = 6, ident = ''5-0-6'', letter = CHR ''N''\<rparr>,
                       \<lparr>x = 0, y = 7, ident = ''6-0-7'', letter = CHR ''T''\<rparr>,
                       \<lparr>x = 0, y = 8, ident = ''7-0-8'', letter = CHR ''E''\<rparr>],
             score := 0, speed := BASE_SPEED, gameOver := False, isPaused := False,
             randomCalls := 17\<rparr>)"
proof -
  have o: "gameOver overGame" "randomCalls overGame = 0" "highScore overGame = 10"
    by (simp_all add: overGame_def demoGameFed_def demoGame_def)
  have w: "WORDS ! random_below tape0 0 (length WORDS) = ''SERPENTE''"
    by (simp add: random_below_def tape0_def WORDS_def)
  show ?thesis
    by (simp add: react_def handle_def resetGame_def o w Let_def
        generateFoodsForWord_reset[unfolded One_nat_def] highScoreEffect_def)
qed

theorem score_monotone_reset_on_restart_witness:
  "(hasStarted overGame \<or> score overGame = 0) \<and> fair tape0 \<and> gameOver overGame \<and>
   score overGame = 10 \<and>
   react tape0 ResetClick overGame =
     Inr (overGame
            \<lparr>snake := INITIAL_SNAKE, direction := INITIAL_DIRECTION, directionQueue := [],
             word := ''SERPENTE'', wordIndex := 0,
             foods := [\<lparr>x = 0, y = 1, ident = ''0-0-1'', letter = CHR ''S''\<rparr>,
                       \<lparr>x = 0, y = 2, ident = ''1-0-2'', letter = CHR ''E''\<rparr>,
                       \<lparr>x = 0, y = 3, ident = ''2-0-3'', letter = CHR ''R''\<rparr>,
                       \<lparr>x = 0, y = 4, ident = ''3-0-4'', letter = CHR ''P''\<rparr>,
                       \<lparr>x = 0, y = 5, ident = ''4-0-5'', letter = CHR ''E''\<rparr>,
                       \<lparr>x = 0, y = 6, ident = ''5-0-6'', letter = CHR ''N''\<rparr>,
                       \<lparr>x = 0, y = 7, ident = ''6-0-7'', letter = CHR ''T''\<rparr>,
                       \<lparr>x = 0, y = 8, ident = ''7-0-8'', letter = CHR ''E''\<rparr>],
             score := 0, speed := BASE_SPEED, gameOver := False, isPaused := False,
             randomCalls := 17\<rparr>) \<and>
   react tape0 Tick demoGame = Inr demoGameFed \<and>
   score demoGame = 0 \<and> score demoGameFed = 10"
proof -
  have h: "hasStarted overGame \<or> score overGame = 0"
    and g: "gameOver overGame" and sc: "score overGame = 10"
    by (simp_all add: overGame_def demoGameFed_def demoGame_def)
  from score_monotone_reset_on_restart[OF h fair_tape0] g
  obtain s' where "react tape0 ResetClick overGame = Inr s'" "score s' = 0" by blast
  have h': "hasStarted demoGame \<or> score demoGame = 0" by (simp add: demoGame_def)
  from score_monotone_reset_on_restart[OF h' fair_tape0] react_Tick_demoGame[of tape0]
  have "score demoGameFed = score demoGame \<or> score demoGameFed = score demoGame + 10 \<or>
        score demoGameFed = score demoGame + 60" by blast
  moreover have "score demoGame = 0" "score demoGameFed = 10"
    by (simp_all add: demoGame_def demoGameFed_def)
  ultimately show ?thesis
    using h g sc fair_tape0 react_ResetClick_overGame react_Tick_demoGame[of tape0] by blast
qed

text \<open>What one input does to the high score and to the store.\<close>

lemma react_store:
  assumes "0 \<le> score s" and "score s \<le> highScore s" and "react tape i s = Inr s'"
  shows "setItemLog s' = (if highScore s < score s' then setItemLog s @ [score s'] else setItemLog s) \<and>
         (highScore s < score s' \<longrightarrow> i = Tick \<and> running s \<and> \<not> gameOver s') \<and>
         (gameOver s' \<and> \<not> gameOver s \<longrightarrow> setItemLog s' = setItemLog s) \<and>
         0 \<le> score s' \<and> score s' \<le> highScore s'"
proof -
  from assms(3) obtain t where t: "handle tape i s = Inr t" "s' = highScoreEffect t"
    by (auto simp: react_Inr)
  have f: "highScore t = highScore s \<and> setItemLog t = setItemLog s \<and> 0 \<le> score t \<and>
           (highScore s < score t \<longrightarrow> i = Tick \<and> running s \<and> \<not> gameOver t)"
  proof (cases "i = Tick")
    case True
    with t(1) have "step tape s = Inr t" by (simp add: handle_def)
    from step_score[OF this] have
      sc: "score t = score s \<or> (score t = score s + 10 \<or> score t = score s + 60) \<and> running s \<and> \<not> gameOver t"
      and o: "highScore t = highScore s" "setItemLog t = setItemLog s" by simp_all
    from sc assms(1) have "0 \<le> score t" by linarith
    moreover from sc assms(2) have "highScore s < score t \<longrightarrow> running s \<and> \<not> gameOver t"
      by linarith
    ultimately show ?thesis using o True by simp
  next
    case False
    note o = handle_other[OF t(1) False]
    have "score t = 0 \<or> score t = score s" using o by (cases "i = ResetClick \<and> gameOver s") simp_all
    with assms(1,2) have "0 \<le> score t" "\<not> highScore s < score t" by linarith+
    with o show ?thesis by simp
  qed
  have "setItemLog s' = (if highScore s < score s' then setItemLog s @ [score s'] else setItemLog s)"
    using f t(2) by (simp add: highScoreEffect_log)
  moreover have "highScore s < score s' \<longrightarrow> i = Tick \<and> running s \<and> \<not> gameOver s'"
    using f t(2) by simp
  moreover have "gameOver s' \<and> \<not> gameOver s \<longrightarrow> setItemLog s' = setItemLog s"
    using f t(2) by (auto simp: highScoreEffect_log)
  moreover have "0 \<le> score s'" using f t(2) by simp
  moreover have "score s' \<le> highScore s'" using t(2) by (simp add: highScoreEffect_highScore)
  ultimately show ?thesis by blast
qed

text \<open>
  Claim C8, as the code has it. The high-score effect runs after every render and does
  not look at gameOver. In a state in which the high score has caught up with the score,
  an input makes the component call \<^verbatim>\<open>localStorage.setItem\<close> exactly when it leaves the
  score above the high score, and then once, with the new score; this happens only after
  a tick taken while the game runs that eats a correct letter, and the game is still
  running afterwards. The tick that ends the game never calls it.
\<close>

theorem setItem_called_when_score_passes_high_score:
  assumes "0 \<le> score s" and "score s \<le> highScore s" and "react tape i s = Inr s'"
  shows "setItemLog s' = (if highScore s < score s' then setItemLog s @ [score s'] else setItemLog s) \<and>
         (highScore s < score s' \<longrightarrow> i = Tick \<and> running s \<and> \<not> gameOver s') \<and>
         (gameOver s' \<and> \<not> gameOver s \<longrightarrow> setItemLog s' = setItemLog s) \<and>
         0 \<le> score s' \<and> score s' \<le> highScore s'"
  using assms by (rule react_store)

theorem setItem_called_when_score_passes_high_score_witness:
  "0 \<le> score demoGame \<and> score demoGame \<le> highScore demoGame \<and>
   react tape0 Tick demoGame = Inr demoGameFed \<and>
   highScore demoGame < score demoGameFed \<and>
   setItemLog demoGameFed = setItemLog demoGame @ [score demoGameFed] \<and>
   \<not> gameOver demoGameFed"
proof -
  have h: "0 \<le> score demoGame" "score demoGame \<le> highScore demoGame"
    by (simp_all add: demoGame_def)
  have lt: "highScore demoGame < score demoGameFed"
    by (simp add: demoGame_def demoGameFed_def)
  from setItem_called_when_score_passes_high_score[OF h react_Tick_demoGame[of tape0]] lt
  have "setItemLog demoGameFed = setItemLog demoGame @ [score demoGameFed]"
    and "\<not> gameOver demoGameFed" by simp_all
  with h lt react_Tick_demoGame[of tape0] show ?thesis by simp
qed

text \<open>
  The tick of the demonstration game that eats the letter A: the store is written, with
  the score 10, and the game is not over.
\<close>

theorem setItem_while_running_counterexample:
  "setItemLog demoGame = [] \<and>
   map_sum id setItemLog (react tape0 Tick demoGame) = Inr [10] \<and>
   map_sum id gameOver (react tape0 Tick demoGame) = Inr False"
  by (simp add: react_Tick_demoGame) (simp add: demoGame_def demoGameFed_def)

text \<open>
  The same game played on until the snake runs into itself: the store has been written
  once, at the tick that ate the letter, and not at the tick that ended the game.
\<close>

lemma run_to_self_collision:
  "run tape0 [Tick, KeyDown ''ArrowLeft'', Tick, KeyDown ''ArrowDown'', Tick,
              KeyDown ''ArrowRight'', Tick] demoGame =
     Inr (demoGameFed\<lparr>gameOver := True, direction := \<lparr>x = 1, y = 0\<rparr>,
            snake := [\<lparr>x = 9, y = 10\<rparr>, \<lparr>x = 9, y = 9\<rparr>, \<lparr>x = 10, y = 9\<rparr>, \<lparr>x = 10, y = 10\<rparr>]\<rparr>)"
  by code_simp

text \<open>The states the component reaches satisfy what the theorems above ask for.\<close>

lemma scoreInv_react:
  assumes "scoreInv s" and "react tape i s = Inr s'"
  shows "scoreInv s'"
proof -
  from assms(1) have a: "0 \<le> score s" "score s \<le> highScore s" "hasStarted s \<or> score s = 0"
    by (simp_all add: scoreInv_def)
  from react_store[OF a(1,2) assms(2)] have "0 \<le> score s'" "score s' \<le> highScore s'"
    by blast+
  moreover from react_score[OF a(3) assms(2)] have "hasStarted s' \<or> score s' = 0"
    by blast
  ultimately show ?thesis by (simp add: scoreInv_def)
qed

lemma scoreInv_run: "scoreInv s \<Longrightarrow> run tape ins s = Inr s' \<Longrightarrow> scoreInv s'"
proof (induction ins arbitrary: s)
  case Nil
  then show ?case by simp
next
  case (Cons i ins)
  from Cons.prems(2) obtain t where t: "react tape i s = Inr t" "run tape ins t = Inr s'"
    by (auto split: sum.splits)
  from Cons.IH[OF scoreInv_react[OF Cons.prems(1) t(1)] t(2)] show ?case .
qed

lemma initialGame_invariants:
  assumes "initialGame tape saved = Inr s0"
  shows "scoreInv s0 \<and> dirInv s0 \<and> \<not> hasStarted s0 \<and> speed s0 = 150"
proof -
  from assms obtain newFoods k' where
    "s0 = highScoreEffect
           \<lparr>hasStarted = False, snake = INITIAL_SNAKE, direction = INITIAL_DIRECTION,
            directionQueue = [], word = WORDS ! 0, wordIndex = 0, foods = newFoods,
            score = 0, highScore = saved, gameOver = False, isPaused = False,
            speed = BASE_SPEED, randomCalls = k', setItemLog = []\<rparr>"
    by (auto simp: initialGame_def split: option.splits)
  then show ?thesis
    by (simp add: scoreInv_def dirInv_def highScoreEffect_highScore INITIAL_DIRECTION_def
        isUnit_def BASE_SPEED_def)
qed

lemma reachable_invariants:
  assumes "initialGame tape saved = Inr s0" and "run tape ins s0 = Inr s"
  shows "scoreInv s \<and> dirInv s"
  using initialGame_invariants[OF assms(1)] scoreInv_run[OF _ assms(2)] dirInv_run[OF _ assms(2)]
  by blast

section \<open>The board in the states the component reaches\<close>

lemma cellOf_fields [simp]: "x (cellOf f) = x f" "y (cellOf f) = y f"
  by (simp_all add: cellOf_def)

lemma cellOf_eq: "cellOf f = c \<longleftrightarrow> x f = x c \<and> y f = y c"
  by (auto simp: cellOf_def)

lemma eatenFoodIndex_Some:
  "eatenFoodIndex s = Some i \<Longrightarrow> i < length (foods s) \<and> cellOf (foods s ! i) = nextHead s"
  unfolding eatenFoodIndex_def by (drule findIndex_Some) (simp add: cellOf_eq)

lemma eatenFoodIndex_None:
  "eatenFoodIndex s = None \<Longrightarrow> nextHead s \<notin> set (map cellOf (foods s))"
proof
  assume n: "eatenFoodIndex s = None" and "nextHead s \<in> set (map cellOf (foods s))"
  then obtain f where f: "f \<in> set (foods s)" "cellOf f = nextHead s" by auto
  from n f(1) have "\<not> (x f = x (nextHead s) \<and> y f = y (nextHead s))"
    unfolding eatenFoodIndex_def findIndex_None by blast
  with f(2) show False by (simp add: cellOf_eq)
qed

lemma boardInv_lands_on_food:
  assumes "boardInv s" and "eatenFoodIndex s = Some i"
  shows "snake s \<noteq> [] \<and> inGrid (nextHead s) \<and> nextHead s \<notin> set (snake s)"
proof -
  from eatenFoodIndex_Some[OF assms(2)] have i: "i < length (foods s)"
    and c: "cellOf (foods s ! i) = nextHead s" by simp_all
  from i have "foods s ! i \<in> set (foods s)" by simp
  with assms(1) c show ?thesis by (auto simp: boardInv_def)
qed

lemma splice1_map: "map f (splice1 i as) = splice1 i (map f as)"
  by (simp add: splice1_def take_map drop_map)

lemma set_splice1: "set (splice1 i as) \<subseteq> set as"
  by (auto simp: splice1_def dest: in_set_takeD in_set_dropD)

lemma distinct_splice1: "distinct as \<Longrightarrow> distinct (splice1 i as)"
  by (simp add: splice1_def set_take_disj_set_drop_if_distinct)

lemma nth_notin_splice1:
  assumes "distinct as" and "i < length as"
  shows "as ! i \<notin> set (splice1 i as)"
proof -
  from assms(2) have "as = take i as @ as ! i # drop (Suc i) as" by (rule id_take_nth_drop)
  with assms(1) have "distinct (take i as @ as ! i # drop (Suc i) as)" by simp
  then show ?thesis by (simp add: splice1_def)
qed

lemma boardInv_generated:
  assumes "generateFoodsForWord tape k w occ = Some (fs, k')" and "occ \<noteq> []"
  shows "boardInv (s\<lparr>foods := fs, snake := occ\<rparr>)"
proof -
  from assms(1) have "foodsLoop tape w 0 k [] occ = Some (fs, k')"
    by (simp add: generateFoodsForWord_def)
  from foodsLoop_sound[OF this] have "distinct (map cellOf fs)"
    "set (map cellOf fs) \<inter> set occ = {}" "\<forall>c \<in> set (map cellOf fs). inGrid c"
    by auto
  with assms(2) show ?thesis by (auto simp: boardInv_def)
qed

lemma boardInv_cong:
  "snake t = snake s \<Longrightarrow> foods t = foods s \<Longrightarrow> boardInv t = boardInv s"
  by (simp add: boardInv_def)

lemma boardInv_step:
  assumes "boardInv s" and "step tape s = Inr s'"
  shows "boardInv s'"
  using assms(2)
proof (cases rule: step_Inr_cases)
  case idle
  with assms(1) show ?thesis by simp
next
  case over
  have "boardInv s' = boardInv s" by (rule boardInv_cong) (simp_all add: over)
  with assms(1) show ?thesis by simp
next
  case move
  have sn: "snake s' = butlast (nextHead s # snake s)" and fo: "foods s' = foods s"
    by (simp_all add: move)
  have sub: "set (snake s') \<subseteq> insert (nextHead s) (set (snake s))"
    unfolding sn by (auto dest: in_set_butlastD)
  have nf: "nextHead s \<notin> set (map cellOf (foods s))"
    using move(3) by (rule eatenFoodIndex_None)
  have ne: "snake s' \<noteq> []" using move(2) by (simp add: sn)
  have off: "cellOf f \<notin> set (snake s')" if f: "f \<in> set (foods s)" for f
  proof
    assume "cellOf f \<in> set (snake s')"
    with sub have "cellOf f = nextHead s \<or> cellOf f \<in> set (snake s)" by auto
    moreover from f nf have "cellOf f \<noteq> nextHead s" by (metis imageI set_map)
    moreover from f assms(1) have "cellOf f \<notin> set (snake s)" by (simp add: boardInv_def)
    ultimately show False by simp
  qed
  show ?thesis using assms(1) ne off unfolding boardInv_def fo by simp
next
  case (eat i)
  have sn: "snake s' = nextHead s # snake s" and fo: "foods s' = splice1 i (foods s)"
    by (simp_all add: eat)
  from eatenFoodIndex_Some[OF eat(3)] have i: "i < length (foods s)"
    and c: "cellOf (foods s ! i) = nextHead s" by simp_all
  from assms(1) have d: "distinct (map cellOf (foods s))" by (simp add: boardInv_def)
  have d': "distinct (map cellOf (foods s'))"
    unfolding fo splice1_map using d by (rule distinct_splice1)
  have nf: "nextHead s \<notin> set (map cellOf (foods s'))"
    using nth_notin_splice1[OF d, of i] i c by (simp add: fo splice1_map)
  have sub: "set (foods s') \<subseteq> set (foods s)" unfolding fo by (rule set_splice1)
  have ok: "inGrid (cellOf f) \<and> cellOf f \<notin> set (nextHead s # snake s)"
    if f: "f \<in> set (foods s')" for f
  proof -
    from f sub have "f \<in> set (foods s)" by auto
    with assms(1) have "inGrid (cellOf f)" "cellOf f \<notin> set (snake s)"
      by (simp_all add: boardInv_def)
    moreover from f nf have "cellOf f \<noteq> nextHead s" by (metis imageI set_map)
    ultimately show ?thesis by simp
  qed
  show ?thesis using d' ok unfolding boardInv_def sn by simp
next
  case (complete i genFoods k')
  have "boardInv s' = boardInv (s\<lparr>foods := genFoods, snake := nextHead s # snake s\<rparr>)"
    by (rule boardInv_cong) (simp_all add: complete)
  with boardInv_generated[OF complete(4), of s] show ?thesis by simp
qed

lemma boardInv_handle:
  assumes "boardInv s" and "handle tape i s = Inr t"
  shows "boardInv t"
proof (cases i)
  case Tick
  with assms show ?thesis by (simp add: handle_def boardInv_step)
next
  case (KeyDown key)
  with assms(2) have t: "t = handleKeyDown key s s" by (simp add: handle_def)
  have "boardInv t = boardInv s"
    unfolding t by (rule boardInv_cong) (simp_all add: handleKeyDown_def split: option.splits)
  with assms(1) show ?thesis by simp
next
  case (DirectionClick b)
  with assms(2) have t: "t = handleDirectionClick (buttonDir b) s s" by (simp add: handle_def)
  have "boardInv t = boardInv s"
    unfolding t by (rule boardInv_cong) (simp_all add: handleDirectionClick_def)
  with assms(1) show ?thesis by simp
next
  case PauseClick
  with assms(2) have t: "t = pauseClick s s" by (simp add: handle_def)
  have "boardInv t = boardInv s"
    unfolding t by (rule boardInv_cong) (simp_all add: pauseClick_def)
  with assms(1) show ?thesis by simp
next
  case ResumeClick
  with assms(2) have "t = s \<or> t = resumeClick s" by (auto simp: handle_def)
  with assms(1) show ?thesis by (auto simp: resumeClick_def boardInv_def)
next
  case StartClick
  with assms(2) have "t = s \<or> t = startGame s" by (auto simp: handle_def)
  with assms(1) show ?thesis by (auto simp: startGame_def boardInv_def)
next
  case ResetClick
  show ?thesis
  proof (cases "gameOver s")
    case True
    with assms(2) ResetClick have r: "resetGame tape s = Inr t" by (simp add: handle_def)
    then obtain newFoods k' where
      g: "generateFoodsForWord tape (randomCalls s + 1)
            (WORDS ! random_below tape (randomCalls s) (length WORDS)) INITIAL_SNAKE
          = Some (newFoods, k')"
      and f: "foods t = newFoods" "snake t = INITIAL_SNAKE"
      by (auto simp: resetGame_def Let_def split: option.splits)
    have "INITIAL_SNAKE \<noteq> []" by (simp add: INITIAL_SNAKE_def)
    from boardInv_generated[OF g this, of s] f show ?thesis by (simp add: boardInv_def)
  next
    case False
    with assms ResetClick show ?thesis by (simp add: handle_def)
  qed
qed

lemma boardInv_react:
  assumes "boardInv s" and "react tape i s = Inr s'"
  shows "boardInv s'"
proof -
  from assms(2) obtain t where t: "handle tape i s = Inr t" "s' = highScoreEffect t"
    by (auto simp: react_Inr)
  have "boardInv (highScoreEffect t) = boardInv t" by (rule boardInv_cong) simp_all
  with boardInv_handle[OF assms(1) t(1)] t(2) show ?thesis by simp
qed

lemma boardInv_run: "boardInv s \<Longrightarrow> run tape ins s = Inr s' \<Longrightarrow> boardInv s'"
proof (induction ins arbitrary: s)
  case Nil
  then show ?case by simp
next
  case (Cons i ins)
  from Cons.prems(2) obtain t where t: "react tape i s = Inr t" "run tape ins t = Inr s'"
    by (auto split: sum.splits)
  from Cons.IH[OF boardInv_react[OF Cons.prems(1) t(1)] t(2)] show ?case .
qed

lemma boardInv_initialGame:
  assumes "initialGame tape saved = Inr s0"
  shows "boardInv s0"
proof -
  from assms obtain newFoods k' where
    g: "generateFoodsForWord tape 0 (WORDS ! 0) INITIAL_SNAKE = Some (newFoods, k')"
    and f: "foods s0 = newFoods" "snake s0 = INITIAL_SNAKE"
    by (auto simp: initialGame_def split: option.splits)
  have "INITIAL_SNAKE \<noteq> []" by (simp add: INITIAL_SNAKE_def)
  from boardInv_generated[OF g this, of s0] f show ?thesis by (simp add: boardInv_def)
qed

text \<open>
  Every state reached from the first render by inputs that return satisfies the three
  invariants.
\<close>

lemma reachable_boardInv:
  assumes "initialGame tape saved = Inr s0" and "run tape ins s0 = Inr s"
  shows "boardInv s"
  using boardInv_run[OF boardInv_initialGame[OF assms(1)] assms(2)] .

section \<open>Completing a word\<close>









section \<open>A key pressed between a tick and the render that follows it\<close>

text \<open>An input and the render after it, from a rendered state, is \<open>react\<close>.\<close>

lemma render_settled: "render \<lparr>shown = c, current = t\<rparr> = settled (highScoreEffect t)"
  by (simp add: render_def settled_def)

lemma play_settled:
  "play tape [Input i, Render] (settled s) =
     (case react tape i s of Inl e \<Rightarrow> Inl e | Inr s' \<Rightarrow> Inr (settled s'))"
proof (cases i)
  case Tick
  then show ?thesis
    by (cases "step tape s")
       (simp_all add: act_def react_def handle_def stepOn_settled settled_def render_def)
next
  case ResetClick
  then show ?thesis
    by (cases "resetGame tape s")
       (simp_all add: act_def react_def handle_def settled_def render_def)
qed (simp_all add: act_def react_def handle_def settled_def render_def)

lemma play_append:
  "play tape (es @ fs) a = (case play tape es a of Inl e \<Rightarrow> Inl e | Inr a' \<Rightarrow> play tape fs a')"
  by (induction tape es a rule: play.induct) (simp_all split: sum.splits)

text \<open>
  The demonstration game heads up with an empty queue. ArrowLeft is queued and the next
  tick commits it: the snake moves to the left. The same happens with or without the
  render between the key and the tick, because the queue is a ref.
\<close>

lemma play_left_turn:
  "play tape0 [Input (KeyDown ''ArrowLeft''), Render, Input Tick] (settled demoGame) =
     Inr \<lparr>shown = demoGame\<lparr>directionQueue := [\<lparr>x = - 1, y = 0\<rparr>]\<rparr>, current = turnedGame\<rparr>"
proof -
  have e: "highScoreEffect (demoGame\<lparr>directionQueue := [\<lparr>x = - 1, y = 0\<rparr>]\<rparr>) =
           demoGame\<lparr>directionQueue := [\<lparr>x = - 1, y = 0\<rparr>]\<rparr>"
    by (simp add: highScoreEffect_def demoGame_def)
  show ?thesis
    by (simp add: act_def settled_def render_def handleKeyDown_ArrowLeft_demoGame e
        stepOn_settled step_left_turn turnedGame_def)
qed

text \<open>
  When the render comes before the next key, ArrowRight is compared with the committed
  direction, left, and is dropped: the next tick moves the snake on to the left.
\<close>

lemma rendered_key_is_dropped:
  "play tape0 [Render, Input (KeyDown ''ArrowRight''), Render, Input Tick]
     \<lparr>shown = demoGame\<lparr>directionQueue := [\<lparr>x = - 1, y = 0\<rparr>]\<rparr>, current = turnedGame\<rparr> =
     Inr \<lparr>shown = turnedGame,
          current = turnedGame\<lparr>snake := [\<lparr>x = 8, y = 10\<rparr>, \<lparr>x = 9, y = 10\<rparr>, \<lparr>x = 10, y = 10\<rparr>]\<rparr>\<rparr>"
  by (simp add: act_def render_def highScoreEffect_def handleKeyDown_def lastDir_def
      keyDir_def pushIfChanged_def stepOn_def shiftQueue_def newHeadOf_def hitsWall_def
      isOccupied_def findIndex.simps GRID_SIZE_def turnedGame_def demoGame_def
      INITIAL_SNAKE_def INITIAL_DIRECTION_def BASE_SPEED_def Let_def)

text \<open>
  Claim C4 does not hold of the component. The handlers guard against a reversal, but
  they compare the key with the \<^verbatim>\<open>direction\<close> of the last render, while the tick takes
  the queued direction off the ref at once. From the demonstration game: ArrowLeft, a
  tick (the committed direction is now left, the queue is empty, nothing is rendered
  yet), ArrowRight. The handler still sees the direction up, so it accepts right and
  appends it, although the reference direction is left and right is its reversal.
  After the render the next tick commits right, the exact negation of the committed
  left; the new head is the cell behind the head and the game is over.
\<close>

theorem stale_key_commits_reversal:
  "play tape0 [Input (KeyDown ''ArrowLeft''), Render, Input Tick] (settled demoGame) =
     Inr \<lparr>shown = demoGame\<lparr>directionQueue := [\<lparr>x = - 1, y = 0\<rparr>]\<rparr>, current = turnedGame\<rparr> \<and>
   direction turnedGame = \<lparr>x = - 1, y = 0\<rparr> \<and> directionQueue turnedGame = [] \<and>
   act tape0 (KeyDown ''ArrowRight'')
     \<lparr>shown = demoGame\<lparr>directionQueue := [\<lparr>x = - 1, y = 0\<rparr>]\<rparr>, current = turnedGame\<rparr> =
     Inr \<lparr>shown = demoGame\<lparr>directionQueue := [\<lparr>x = - 1, y = 0\<rparr>]\<rparr>,
          current = turnedGame\<lparr>directionQueue := [\<lparr>x = 1, y = 0\<rparr>]\<rparr>\<rparr> \<and>
   \<lparr>x = 1, y = 0\<rparr> = negated (direction turnedGame) \<and>
   play tape0 [Render, Input Tick]
     \<lparr>shown = demoGame\<lparr>directionQueue := [\<lparr>x = - 1, y = 0\<rparr>]\<rparr>,
      current = turnedGame\<lparr>directionQueue := [\<lparr>x = 1, y = 0\<rparr>]\<rparr>\<rparr> =
     Inr \<lparr>shown = turnedGame\<lparr>directionQueue := [\<lparr>x = 1, y = 0\<rparr>]\<rparr>,
          current = turnedGame\<lparr>direction := \<lparr>x = 1, y = 0\<rparr>, gameOver := True\<rparr>\<rparr> \<and>
   play tape0 [Input (KeyDown ''ArrowLeft''), Render, Input Tick,
               Input (KeyDown ''ArrowRight''), Render, Input Tick] (settled demoGame) =
     Inr \<lparr>shown = turnedGame\<lparr>directionQueue := [\<lparr>x = 1, y = 0\<rparr>]\<rparr>,
          current = turnedGame\<lparr>direction := \<lparr>x = 1, y = 0\<rparr>, gameOver := True\<rparr>\<rparr>"
proof -
  let ?a = "\<lparr>shown = demoGame\<lparr>directionQueue := [\<lparr>x = - 1, y = 0\<rparr>]\<rparr>, current = turnedGame\<rparr>"
  let ?b = "\<lparr>shown = demoGame\<lparr>directionQueue := [\<lparr>x = - 1, y = 0\<rparr>]\<rparr>,
            current = turnedGame\<lparr>directionQueue := [\<lparr>x = 1, y = 0\<rparr>]\<rparr>\<rparr>"
  let ?c = "\<lparr>shown = turnedGame\<lparr>directionQueue := [\<lparr>x = 1, y = 0\<rparr>]\<rparr>,
            current = turnedGame\<lparr>direction := \<lparr>x = 1, y = 0\<rparr>, gameOver := True\<rparr>\<rparr>"
  have t: "direction turnedGame = \<lparr>x = - 1, y = 0\<rparr>" "directionQueue turnedGame = []"
    "\<lparr>x = 1, y = 0\<rparr> = negated (direction turnedGame)"
    by (simp_all add: turnedGame_def demoGame_def negated_def)
  have k: "act tape0 (KeyDown ''ArrowRight'') ?a = Inr ?b"
    by (simp add: act_def handleKeyDown_def lastDir_def keyDir_def pushIfChanged_def
        turnedGame_def demoGame_def INITIAL_DIRECTION_def)
  have r: "play tape0 [Render, Input Tick] ?b = Inr ?c"
    by (simp add: act_def render_def highScoreEffect_def stepOn_def shiftQueue_def
        newHeadOf_def hitsWall_def isOccupied_def GRID_SIZE_def turnedGame_def demoGame_def
        INITIAL_SNAKE_def Let_def)
  have s: "[Input (KeyDown ''ArrowLeft''), Render, Input Tick,
            Input (KeyDown ''ArrowRight''), Render, Input Tick] =
           [Input (KeyDown ''ArrowLeft''), Render, Input Tick] @
           [Input (KeyDown ''ArrowRight''), Render, Input Tick]"
    by simp
  have "play tape0 [Input (KeyDown ''ArrowLeft''), Render, Input Tick,
                    Input (KeyDown ''ArrowRight''), Render, Input Tick] (settled demoGame) =
        play tape0 [Input (KeyDown ''ArrowRight''), Render, Input Tick] ?a"
    by (simp only: s play_append play_left_turn sum.case)
  also have "\<dots> = play tape0 [Render, Input Tick] ?b" by (simp add: k)
  also note r
  finally have "play tape0 [Input (KeyDown ''ArrowLeft''), Render, Input Tick,
                    Input (KeyDown ''ArrowRight''), Render, Input Tick] (settled demoGame) =
                Inr ?c" .
  with play_left_turn t k r show ?thesis by blast
qed

section \<open>Input while paused\<close>





end
